theory Spec2Isabelle
  imports Complex_Main
begin

section \<open>Matrix builder\<close>

text \<open>
  The source is \<^verbatim>\<open>dataanalysis/brainmaptools.py\<close>. A two-dimensional numpy array is
  modelled as the list of its rows. Keycodes are hashable Python values of any kind
  (strings or integers), so the element type of a region's keycode list is a type variable.

  \<^verbatim>\<open>
  def build_jaccard(key_codes):
      array_dims=len(key_codes), len(key_codes)
      jaccard=np.zeros(shape=array_dims)
      for col_idx, x in enumerate(key_codes):
          for row_idx, y in enumerate(key_codes):
              intersect=float(len(set(x) & set(y)))
              union=float(len(list(set(x) | set(y))))
              if union:
                  jaccard[col_idx, row_idx]=intersect/union
      return jaccard
  \<close>
  Every cell of the zero-initialised array is visited exactly once, the cell at
  \<open>(col_idx, row_idx)\<close> receiving the value computed from the pair \<open>(x, y)\<close>; a cell whose
  union is empty keeps the initial \<open>0\<close>. The quotient of two set sizes is read as a real
  number.
\<close>

definition jaccard_cell :: "'a list \<Rightarrow> 'a list \<Rightarrow> real" where
  "jaccard_cell x y =
     (let intersect = real (card (set x \<inter> set y));
          union = real (card (set x \<union> set y))
      in if union \<noteq> 0 then intersect / union else 0)"

definition build_jaccard :: "'a list list \<Rightarrow> real list list" where
  "build_jaccard key_codes = map (\<lambda>x. map (\<lambda>y. jaccard_cell x y) key_codes) key_codes"

text \<open>
  \<^verbatim>\<open>
  def build_n_coactives_array(key_codes):
      array_dims=len(key_codes), len(key_codes)
      n_coactives_array =np.zeros(shape=array_dims)
      for col_idx, x in enumerate(key_codes):
          for row_idx, y in enumerate(key_codes):
              n_coactives_array[col_idx, row_idx]=len(set(x) & set(y))
      return n_coactives_array
  \<close>
  The entries are counts; they are kept as integers.
\<close>

definition build_n_coactives_array :: "'a list list \<Rightarrow> int list list" where
  "build_n_coactives_array key_codes =
     map (\<lambda>x. map (\<lambda>y. int (card (set x \<inter> set y))) key_codes) key_codes"

section \<open>Influence estimator\<close>

text \<open>
  Arithmetic on numpy's \<^verbatim>\<open>float64\<close> values does not raise: a division by zero gives an
  infinity or a NaN (with a warning only). A value of that type is modelled as a real
  number or one of the three special values, and the operations follow the IEEE rules for
  the special values. The sign of a zero is not modelled (every zero divisor in the
  source is a count or a difference of counts, hence a positive zero). In the operations
  of this section a finite result is the exact real number, without rounding: the
  quotients of the influence estimator are stated as the quotients of the counts, and the
  product of \<open>build_positive_influence_matrix\<close> has a factor \<open>0\<close> or \<open>1\<close>. Where rounding
  decides what the code does, in the graph thresholder and in the significance filter, it
  is modelled further below.
\<close>

datatype npfloat = Finite real | PInf | NInf | NaN

fun np_div :: "npfloat \<Rightarrow> npfloat \<Rightarrow> npfloat" where
  "np_div NaN _ = NaN"
| "np_div _ NaN = NaN"
| "np_div (Finite a) (Finite b) =
     (if b \<noteq> 0 then Finite (a / b)
      else if 0 < a then PInf else if a < 0 then NInf else NaN)"
| "np_div (Finite a) PInf = Finite 0"
| "np_div (Finite a) NInf = Finite 0"
| "np_div PInf (Finite b) = (if 0 \<le> b then PInf else NInf)"
| "np_div NInf (Finite b) = (if 0 \<le> b then NInf else PInf)"
| "np_div PInf PInf = NaN"
| "np_div PInf NInf = NaN"
| "np_div NInf PInf = NaN"
| "np_div NInf NInf = NaN"

fun np_sub :: "npfloat \<Rightarrow> npfloat \<Rightarrow> npfloat" where
  "np_sub NaN _ = NaN"
| "np_sub _ NaN = NaN"
| "np_sub (Finite a) (Finite b) = Finite (a - b)"
| "np_sub (Finite a) PInf = NInf"
| "np_sub (Finite a) NInf = PInf"
| "np_sub PInf (Finite b) = PInf"
| "np_sub NInf (Finite b) = NInf"
| "np_sub PInf PInf = NaN"
| "np_sub PInf NInf = PInf"
| "np_sub NInf PInf = NInf"
| "np_sub NInf NInf = NaN"

fun np_mul :: "npfloat \<Rightarrow> npfloat \<Rightarrow> npfloat" where
  "np_mul NaN _ = NaN"
| "np_mul _ NaN = NaN"
| "np_mul (Finite a) (Finite b) = Finite (a * b)"
| "np_mul (Finite a) PInf = (if 0 < a then PInf else if a < 0 then NInf else NaN)"
| "np_mul (Finite a) NInf = (if 0 < a then NInf else if a < 0 then PInf else NaN)"
| "np_mul PInf (Finite b) = (if 0 < b then PInf else if b < 0 then NInf else NaN)"
| "np_mul NInf (Finite b) = (if 0 < b then NInf else if b < 0 then PInf else NaN)"
| "np_mul PInf PInf = PInf"
| "np_mul PInf NInf = NInf"
| "np_mul NInf PInf = NInf"
| "np_mul NInf NInf = PInf"

text \<open>The comparison \<^verbatim>\<open>x > y\<close>: false as soon as one side is a NaN.\<close>

fun np_gt :: "npfloat \<Rightarrow> npfloat \<Rightarrow> bool" where
  "np_gt NaN _ = False"
| "np_gt _ NaN = False"
| "np_gt (Finite a) (Finite b) = (b < a)"
| "np_gt (Finite a) PInf = False"
| "np_gt (Finite a) NInf = True"
| "np_gt PInf (Finite b) = True"
| "np_gt NInf (Finite b) = False"
| "np_gt PInf PInf = False"
| "np_gt PInf NInf = True"
| "np_gt NInf PInf = False"
| "np_gt NInf NInf = False"

definition of_count :: "int \<Rightarrow> npfloat" where
  "of_count c = Finite (real_of_int c)"

text \<open>
  The functions below are stated for the \<open>N \<times> N\<close> arrays the co-activation builder
  produces; \<open>square\<close> is that shape. On such an array the broadcasts of the source pair
  row \<open>i\<close> with \<open>diagonal[i]\<close> (\<^verbatim>\<open>diagonal[:, np.newaxis]\<close>, a column) and column \<open>j\<close> with
  \<open>diagonal[j]\<close> (\<^verbatim>\<open>diagonal\<close>, a row).
\<close>

definition square :: "'a list list \<Rightarrow> bool" where
  "square M = (\<forall>r \<in> set M. length r = length M)"

definition diagonal :: "'a list list \<Rightarrow> 'a list" where
  "diagonal M = map (\<lambda>i. M ! i ! i) [0..<length M]"

text \<open>
  \<^verbatim>\<open>
  def build_influence_matrix(n_coactives_array):
      n_coactive_mat=n_coactives_array.copy()
      diagonal=n_coactive_mat.diagonal()
      a=n_coactive_mat/diagonal[:, np.newaxis] #dividing by row
      b=n_coactive_mat/diagonal #dividing by column
      influence_mat=a-b
      return influence_mat
  \<close>
\<close>

definition build_influence_matrix :: "int list list \<Rightarrow> npfloat list list" where
  "build_influence_matrix n_coactives_array =
     (let n_coactive_mat = n_coactives_array;
          diag = diagonal n_coactive_mat;
          a = map2 (\<lambda>row d. map (\<lambda>c. np_div (of_count c) (of_count d)) row) n_coactive_mat diag;
          b = map (\<lambda>row. map2 (\<lambda>c d. np_div (of_count c) (of_count d)) row diag) n_coactive_mat;
          influence_mat = map2 (\<lambda>ra rb. map2 np_sub ra rb) a b
      in influence_mat)"

text \<open>
  \<^verbatim>\<open>
  def build_positive_influence_matrix(n_coactives_array):
      influence_mat=build_influence_matrix(n_coactives_array)
      influence_di_mat=influence_mat*(influence_mat>0)
      return influence_di_mat
  \<close>
  The boolean array \<^verbatim>\<open>influence_mat>0\<close> enters the product as \<open>1.0\<close> and \<open>0.0\<close>.
\<close>

definition build_positive_influence_matrix :: "int list list \<Rightarrow> npfloat list list" where
  "build_positive_influence_matrix n_coactives_array =
     (let influence_mat = build_influence_matrix n_coactives_array;
          influence_di_mat =
            map (map (\<lambda>v. np_mul v (if np_gt v (Finite 0) then Finite 1 else Finite 0)))
              influence_mat
      in influence_di_mat)"

section \<open>Graph thresholder\<close>

text \<open>
  The exceptions the modelled code can raise: Python's \<^verbatim>\<open>IndexError\<close> (a list index out
  of range), \<^verbatim>\<open>KeyError\<close> (a missing dictionary key), \<^verbatim>\<open>ValueError\<close> (\<^verbatim>\<open>math.log10\<close>
  outside its domain, \<^verbatim>\<open>int\<close> of a NaN), \<^verbatim>\<open>OverflowError\<close> (an integer too large for a
  float, \<^verbatim>\<open>int\<close> of an infinity) and networkx's \<^verbatim>\<open>NetworkXError\<close> (removing a node or
  an edge that is not in the graph). A function that can raise returns \<open>py_error + 'a\<close>.
\<close>

datatype py_error = IndexError | KeyError | ValueError | OverflowError | NetworkXError

text \<open>
  An undirected \<^verbatim>\<open>networkx.Graph\<close> whose edges all carry a \<^verbatim>\<open>'weight'\<close> attribute: the
  nodes in iteration order, and the edges in the order \<^verbatim>\<open>edges_iter()\<close> yields them, each
  as the pair of end points it is yielded with and its weight. An edge is reached from
  either orientation of its end points (\<open>same_edge\<close>). Weights are only compared, so any
  linearly ordered type serves.
\<close>

record ('n, 'w) graph =
  nodes :: "'n list"
  edges :: "(('n \<times> 'n) \<times> 'w) list"

fun same_edge :: "'n \<times> 'n \<Rightarrow> 'n \<times> 'n \<Rightarrow> bool" where
  "same_edge (u, v) (x, y) = ((u = x \<and> v = y) \<or> (u = y \<and> v = x))"

text \<open>
  The invariant of the data structure: nodes are distinct dictionary keys, every edge
  joins two nodes, and an unordered pair of nodes carries at most one edge.
\<close>

fun no_dup_edges :: "(('n \<times> 'n) \<times> 'w) list \<Rightarrow> bool" where
  "no_dup_edges [] = True"
| "no_dup_edges (e # es) = (list_all (\<lambda>e'. \<not> same_edge (fst e) (fst e')) es \<and> no_dup_edges es)"

definition wf_graph :: "('n, 'w) graph \<Rightarrow> bool" where
  "wf_graph G =
     (distinct (nodes G) \<and>
      list_all (\<lambda>e. fst (fst e) \<in> set (nodes G) \<and> snd (fst e) \<in> set (nodes G)) (edges G) \<and>
      no_dup_edges (edges G))"

definition number_of_nodes :: "('n, 'w) graph \<Rightarrow> nat" where
  "number_of_nodes G = length (nodes G)"

definition edges_iter :: "('n, 'w) graph \<Rightarrow> ('n \<times> 'n) list" where
  "edges_iter G = map fst (edges G)"

text \<open>\<^verbatim>\<open>G[x][y]['weight']\<close>: a \<^verbatim>\<open>KeyError\<close> when \<open>x\<close> and \<open>y\<close> are not joined.\<close>

definition get_weight :: "('n, 'w) graph \<Rightarrow> 'n \<Rightarrow> 'n \<Rightarrow> py_error + 'w" where
  "get_weight G x y =
     (case find (\<lambda>e. same_edge (fst e) (x, y)) (edges G) of
        None \<Rightarrow> Inl KeyError
      | Some e \<Rightarrow> Inr (snd e))"

text \<open>\<^verbatim>\<open>G.remove_edge(x, y)\<close> raises when there is no such edge.\<close>

definition remove_edge :: "('n, 'w) graph \<Rightarrow> 'n \<Rightarrow> 'n \<Rightarrow> py_error + ('n, 'w) graph" where
  "remove_edge G x y =
     (if list_ex (\<lambda>e. same_edge (fst e) (x, y)) (edges G)
      then Inr (G\<lparr>edges := filter (\<lambda>e. \<not> same_edge (fst e) (x, y)) (edges G)\<rparr>)
      else Inl NetworkXError)"

text \<open>\<^verbatim>\<open>G.remove_edges_from(ebunch)\<close> skips the pairs that are not edges.\<close>

definition remove_edges_from :: "('n, 'w) graph \<Rightarrow> ('n \<times> 'n) list \<Rightarrow> ('n, 'w) graph" where
  "remove_edges_from G ebunch =
     G\<lparr>edges := filter (\<lambda>e. \<not> list_ex (\<lambda>p. same_edge (fst e) p) ebunch) (edges G)\<rparr>"

text \<open>The degree of a node counts its edges, a self-loop twice.\<close>

definition degree :: "('n, 'w) graph \<Rightarrow> 'n \<Rightarrow> nat" where
  "degree G n =
     length (filter (\<lambda>e. fst (fst e) = n) (edges G)) +
     length (filter (\<lambda>e. snd (fst e) = n) (edges G))"

definition degree_iter :: "('n, 'w) graph \<Rightarrow> ('n \<times> nat) list" where
  "degree_iter G = map (\<lambda>n. (n, degree G n)) (nodes G)"

text \<open>\<^verbatim>\<open>G.remove_node(n)\<close> removes the node and its edges, and raises when it is absent.\<close>

definition remove_node :: "('n, 'w) graph \<Rightarrow> 'n \<Rightarrow> py_error + ('n, 'w) graph" where
  "remove_node G n =
     (if n \<in> set (nodes G)
      then Inr (G\<lparr>nodes := filter (\<lambda>m. m \<noteq> n) (nodes G),
                  edges := filter (\<lambda>e. fst (fst e) \<noteq> n \<and> snd (fst e) \<noteq> n) (edges G)\<rparr>)
      else Inl NetworkXError)"

text \<open>\<^verbatim>\<open>nx.complete_graph(n).number_of_edges()\<close>: one edge for each pair of the \<open>n\<close> nodes.\<close>

definition complete_graph_number_of_edges :: "nat \<Rightarrow> nat" where
  "complete_graph_number_of_edges n = n * (n - 1) div 2"

text \<open>
  The product \<^verbatim>\<open>Complete_G.number_of_edges()*cost\<close> is a float64 product, and its rounding
  decides the integer below it (\<^verbatim>\<open>int(10*0.3)\<close> is \<open>3\<close>, although the float \<open>0.3\<close> is less
  than \<open>3/10\<close>). \<open>float64_round\<close> is the IEEE 754 binary64 rounding of a real number, to
  nearest with ties to even: the significand has 53 bits, the least exponent of a unit in
  the last place is \<open>-1074\<close>, and a result of magnitude \<open>2 ^ 1024\<close> or more is an infinity.
\<close>

definition round_half_even :: "real \<Rightarrow> int" where
  "round_half_even q =
     (let f = \<lfloor>q\<rfloor>
      in if q - real_of_int f < 1 / 2 then f
         else if 1 / 2 < q - real_of_int f then f + 1
         else if even f then f else f + 1)"

definition float64_round :: "real \<Rightarrow> npfloat" where
  "float64_round x =
     (if x = 0 then Finite 0
      else let e = max (\<lfloor>log 2 \<bar>x\<bar>\<rfloor> - 52) (- 1074);
               y = real_of_int (round_half_even (x / 2 powr real_of_int e)) * 2 powr real_of_int e
           in if 2 ^ 1024 \<le> \<bar>y\<bar> then (if 0 < x then PInf else NInf) else Finite y)"

text \<open>
  Python's product of an \<^verbatim>\<open>int\<close> and a \<^verbatim>\<open>float\<close>: the integer is converted to a float
  (rounded the same way, \<^verbatim>\<open>OverflowError\<close> when it is too large) and the two floats are
  multiplied. The float operand is given by the real number it denotes.
\<close>

definition py_int_times_float :: "int \<Rightarrow> real \<Rightarrow> py_error + npfloat" where
  "py_int_times_float n x =
     (case float64_round (real_of_int n) of
        Finite r \<Rightarrow> Inr (float64_round (r * x))
      | _ \<Rightarrow> Inl OverflowError)"

text \<open>
  Python's \<^verbatim>\<open>int(x)\<close> on a float truncates towards zero; it raises \<^verbatim>\<open>OverflowError\<close> for an
  infinity and \<^verbatim>\<open>ValueError\<close> for a NaN.
\<close>

definition py_int :: "npfloat \<Rightarrow> py_error + int" where
  "py_int v =
     (case v of
        Finite r \<Rightarrow> Inr (if 0 \<le> r then \<lfloor>r\<rfloor> else \<lceil>r\<rceil>)
      | NaN \<Rightarrow> Inl ValueError
      | _ \<Rightarrow> Inl OverflowError)"

text \<open>
  The first two statements of \<^verbatim>\<open>applycost_to_g\<close>, for a graph of \<open>n\<close> nodes:
  \<^verbatim>\<open>n_edges_keep=int(Complete_G.number_of_edges()*cost)\<close>.
\<close>

definition requested_edges :: "nat \<Rightarrow> real \<Rightarrow> py_error + int" where
  "requested_edges n cost =
     (case py_int_times_float (int (complete_graph_number_of_edges n)) cost of
        Inl e \<Rightarrow> Inl e
      | Inr product \<Rightarrow> py_int product)"

text \<open>
  Python's \<^verbatim>\<open>xs[i]\<close>: an index from \<open>-len(xs)\<close> to \<open>-1\<close> counts from the end, and
  anything outside \<open>-len(xs) .. len(xs) - 1\<close> raises.
\<close>

definition py_index :: "'a list \<Rightarrow> int \<Rightarrow> py_error + 'a" where
  "py_index xs i =
     (if 0 \<le> i \<and> i < int (length xs) then Inr (xs ! nat i)
      else if i < 0 \<and> - int (length xs) \<le> i then Inr (xs ! nat (int (length xs) + i))
      else Inl IndexError)"

text \<open>A list comprehension whose element expression can raise: the first error wins.\<close>

fun collect :: "('a \<Rightarrow> py_error + 'b) \<Rightarrow> 'a list \<Rightarrow> py_error + 'b list" where
  "collect f [] = Inr []"
| "collect f (x # xs) =
     (case f x of
        Inl e \<Rightarrow> Inl e
      | Inr v \<Rightarrow> (case collect f xs of Inl e \<Rightarrow> Inl e | Inr vs \<Rightarrow> Inr (v # vs)))"

text \<open>A list comprehension whose condition can raise.\<close>

fun select :: "('a \<Rightarrow> py_error + bool) \<Rightarrow> 'a list \<Rightarrow> py_error + 'a list" where
  "select c [] = Inr []"
| "select c (x # xs) =
     (case c x of
        Inl e \<Rightarrow> Inl e
      | Inr b \<Rightarrow>
          (case select c xs of Inl e \<Rightarrow> Inl e | Inr vs \<Rightarrow> Inr (if b then x # vs else vs)))"

text \<open>
  \<^verbatim>\<open>
  def applycost_to_g(G,cost):
      Complete_G=nx.complete_graph(G.number_of_nodes())
      n_edges_keep=int(Complete_G.number_of_edges()*cost)
      weights=[(G[x][y]['weight']) for x,y in G.edges_iter()]
      sorted_weights=sorted(weights, reverse=1)
      thresh=sorted_weights[n_edges_keep+1]
      remove_edgelist=[(x,y) for x,y in G.edges_iter() if G[x][y]['weight']<thresh]
      G_cost=G.copy()
      G_cost.remove_edges_from(remove_edgelist)
      return G_cost
  \<close>
  The cost is a finite float, given by the real number it denotes.
\<close>

definition applycost_to_g :: "('n, 'w::linorder) graph \<Rightarrow> real \<Rightarrow> py_error + ('n, 'w) graph" where
  "applycost_to_g G cost =
     (case requested_edges (number_of_nodes G) cost of
        Inl e \<Rightarrow> Inl e
      | Inr n_edges_keep \<Rightarrow>
          (case collect (\<lambda>(x, y). get_weight G x y) (edges_iter G) of
             Inl e \<Rightarrow> Inl e
           | Inr weights \<Rightarrow>
               (let sorted_weights = rev (sort weights)
                in case py_index sorted_weights (n_edges_keep + 1) of
                     Inl e \<Rightarrow> Inl e
                   | Inr thresh \<Rightarrow>
                       (case select (\<lambda>(x, y). case get_weight G x y of
                                                 Inl e \<Rightarrow> Inl e
                                               | Inr w \<Rightarrow> Inr (w < thresh))
                               (edges_iter G) of
                          Inl e \<Rightarrow> Inl e
                        | Inr remove_edgelist \<Rightarrow>
                            (let G_cost = G
                             in Inr (remove_edges_from G_cost remove_edgelist))))))"

text \<open>
  \<^verbatim>\<open>
  def remove_edges_by_weight(G, max_weight):
      G_removed=G.copy()
      for x,y in G.edges_iter():
          if G_removed[x][y]['weight']<max_weight:
              G_removed.remove_edge(x,y)
      for x,y in G.degree_iter():
          if y<2:
              G_removed.remove_node(x)
      return G_removed
  \<close>
  Each loop runs over a list taken from \<open>G\<close> and updates \<open>G_removed\<close>.
\<close>

fun prune_edges ::
  "'w::linorder \<Rightarrow> ('n \<times> 'n) list \<Rightarrow> ('n, 'w) graph \<Rightarrow> py_error + ('n, 'w) graph" where
  "prune_edges max_weight [] G_removed = Inr G_removed"
| "prune_edges max_weight ((x, y) # es) G_removed =
     (case get_weight G_removed x y of
        Inl e \<Rightarrow> Inl e
      | Inr w \<Rightarrow>
          if w < max_weight
          then (case remove_edge G_removed x y of
                  Inl e \<Rightarrow> Inl e
                | Inr G' \<Rightarrow> prune_edges max_weight es G')
          else prune_edges max_weight es G_removed)"

fun prune_nodes :: "('n \<times> nat) list \<Rightarrow> ('n, 'w) graph \<Rightarrow> py_error + ('n, 'w) graph" where
  "prune_nodes [] G_removed = Inr G_removed"
| "prune_nodes ((x, y) # ds) G_removed =
     (if y < 2
      then (case remove_node G_removed x of
              Inl e \<Rightarrow> Inl e
            | Inr G' \<Rightarrow> prune_nodes ds G')
      else prune_nodes ds G_removed)"

definition remove_edges_by_weight ::
  "('n, 'w::linorder) graph \<Rightarrow> 'w \<Rightarrow> py_error + ('n, 'w) graph" where
  "remove_edges_by_weight G max_weight =
     (let G_removed = G
      in case prune_edges max_weight (edges_iter G) G_removed of
           Inl e \<Rightarrow> Inl e
         | Inr G_removed' \<Rightarrow> prune_nodes (degree_iter G) G_removed')"

section \<open>Significance filter\<close>

text \<open>
  The statistic is computed in float64 by numpy's division and product, by
  \<^verbatim>\<open>scipy.stats.binom.pmf\<close> and by \<^verbatim>\<open>math.log10\<close>. How these round is fixed by the platform
  and the libraries, not by the source, and the filter's decisions depend on it; so the
  four operations are parameters of the model, and the facts proved of the filter hold
  for every choice of them.
\<close>

record float_ops =
  true_divide :: "npfloat \<Rightarrow> npfloat \<Rightarrow> npfloat"
  multiply :: "npfloat \<Rightarrow> npfloat \<Rightarrow> npfloat"
  binom_pmf :: "int \<Rightarrow> int \<Rightarrow> npfloat \<Rightarrow> npfloat"
  log10 :: "npfloat \<Rightarrow> py_error + npfloat"

text \<open>
  Reading and writing one cell of a two-dimensional array; the read raises
  \<^verbatim>\<open>IndexError\<close> outside the array.
\<close>

definition mat_get :: "'a list list \<Rightarrow> nat \<Rightarrow> nat \<Rightarrow> py_error + 'a" where
  "mat_get M x y =
     (if x < length M \<and> y < length (M ! x) then Inr (M ! x ! y) else Inl IndexError)"

definition mat_set :: "'a list list \<Rightarrow> nat \<Rightarrow> nat \<Rightarrow> 'a \<Rightarrow> 'a list list" where
  "mat_set M x y v = M[x := (M ! x)[y := v]]"

text \<open>
  \<^verbatim>\<open>
  def significant_connection_threshold(in_array,total_contrasts,threshold):
      thresh_array=in_array.copy()
      for x in range(np.shape(thresh_array)[0]):
          for y in range(np.shape(thresh_array)[0]):
              if x != y:
                  p=thresh_array[x][x]/total_contrasts
                  null=(scipy.stats.binom.pmf(thresh_array[x][y], thresh_array[y][y], p))
                      *(scipy.stats.binom.pmf((thresh_array[x][x]-thresh_array[x][y]),
                                              (total_contrasts-thresh_array[y][y]), p))
                  p_one=(thresh_array[x][y])/(thresh_array[y][y])
                  p_zero=(thresh_array[x][x]-thresh_array[x][y])/(total_contrasts-thresh_array[y][y])
                  alternate=(scipy.stats.binom.pmf(thresh_array[x][y], thresh_array[y][y], p_one))
                      *(scipy.stats.binom.pmf((thresh_array[x][x]-thresh_array[x][y]),
                                              (total_contrasts-thresh_array[y][y]), p_zero))
                  p_val=(-2*(math.log10(null/alternate)))
                  if p_val > threshold:
                      thresh_array[x][y]=0
      return thresh_array
  \<close>
  The three cells the body reads are named \<open>axx\<close>, \<open>axy\<close> and \<open>ayy\<close>. The array holds
  counts, integers that float64 represents and subtracts exactly (below \<open>2 ^ 53\<close>); the
  quotients, the products, the probabilities and the logarithm are the float64 operations
  \<open>ops\<close>. The comparison with the threshold is exact, and false for a NaN.
\<close>

definition null_likelihood :: "float_ops \<Rightarrow> int \<Rightarrow> int \<Rightarrow> int \<Rightarrow> int \<Rightarrow> npfloat" where
  "null_likelihood ops total_contrasts axx axy ayy =
     (let p = true_divide ops (of_count axx) (of_count total_contrasts)
      in multiply ops (binom_pmf ops axy ayy p)
                      (binom_pmf ops (axx - axy) (total_contrasts - ayy) p))"

definition alternate_likelihood :: "float_ops \<Rightarrow> int \<Rightarrow> int \<Rightarrow> int \<Rightarrow> int \<Rightarrow> npfloat" where
  "alternate_likelihood ops total_contrasts axx axy ayy =
     (let p_one = true_divide ops (of_count axy) (of_count ayy);
          p_zero = true_divide ops (of_count (axx - axy)) (of_count (total_contrasts - ayy))
      in multiply ops (binom_pmf ops axy ayy p_one)
                      (binom_pmf ops (axx - axy) (total_contrasts - ayy) p_zero))"

definition p_value :: "float_ops \<Rightarrow> int \<Rightarrow> int \<Rightarrow> int \<Rightarrow> int \<Rightarrow> py_error + npfloat" where
  "p_value ops total_contrasts axx axy ayy =
     (let null = null_likelihood ops total_contrasts axx axy ayy;
          alternate = alternate_likelihood ops total_contrasts axx axy ayy
      in case log10 ops (true_divide ops null alternate) of
           Inl e \<Rightarrow> Inl e
         | Inr l \<Rightarrow> Inr (multiply ops (Finite (- 2)) l))"

definition sct_body ::
  "float_ops \<Rightarrow> int \<Rightarrow> real \<Rightarrow> nat \<Rightarrow> nat \<Rightarrow> int list list \<Rightarrow> py_error + int list list" where
  "sct_body ops total_contrasts threshold x y thresh_array =
     (if x \<noteq> y
      then (case mat_get thresh_array x x of
              Inl e \<Rightarrow> Inl e
            | Inr axx \<Rightarrow>
                (case mat_get thresh_array x y of
                   Inl e \<Rightarrow> Inl e
                 | Inr axy \<Rightarrow>
                     (case mat_get thresh_array y y of
                        Inl e \<Rightarrow> Inl e
                      | Inr ayy \<Rightarrow>
                          (case p_value ops total_contrasts axx axy ayy of
                             Inl e \<Rightarrow> Inl e
                           | Inr p_val \<Rightarrow>
                               if np_gt p_val (Finite threshold)
                               then Inr (mat_set thresh_array x y 0)
                               else Inr thresh_array))))
      else Inr thresh_array)"

fun sct_inner ::
  "float_ops \<Rightarrow> int \<Rightarrow> real \<Rightarrow> nat \<Rightarrow> nat list \<Rightarrow> int list list \<Rightarrow>
     py_error + int list list" where
  "sct_inner ops total_contrasts threshold x [] thresh_array = Inr thresh_array"
| "sct_inner ops total_contrasts threshold x (y # ys) thresh_array =
     (case sct_body ops total_contrasts threshold x y thresh_array of
        Inl e \<Rightarrow> Inl e
      | Inr thresh_array' \<Rightarrow> sct_inner ops total_contrasts threshold x ys thresh_array')"

fun sct_outer ::
  "float_ops \<Rightarrow> int \<Rightarrow> real \<Rightarrow> nat \<Rightarrow> nat list \<Rightarrow> int list list \<Rightarrow>
     py_error + int list list" where
  "sct_outer ops total_contrasts threshold n [] thresh_array = Inr thresh_array"
| "sct_outer ops total_contrasts threshold n (x # xs) thresh_array =
     (case sct_inner ops total_contrasts threshold x [0..<n] thresh_array of
        Inl e \<Rightarrow> Inl e
      | Inr thresh_array' \<Rightarrow> sct_outer ops total_contrasts threshold n xs thresh_array')"

definition significant_connection_threshold ::
  "float_ops \<Rightarrow> int list list \<Rightarrow> int \<Rightarrow> real \<Rightarrow> py_error + int list list" where
  "significant_connection_threshold ops in_array total_contrasts threshold =
     (let thresh_array = in_array;
          n = length thresh_array
      in sct_outer ops total_contrasts threshold n [0..<n] thresh_array)"

text \<open>
  The decision the body takes at a cell, as a function of the three cells it reads:
  the entry is set to zero when the statistic is computed and exceeds the threshold.
\<close>

definition zeroed :: "float_ops \<Rightarrow> int \<Rightarrow> real \<Rightarrow> int \<Rightarrow> int \<Rightarrow> int \<Rightarrow> bool" where
  "zeroed ops total_contrasts threshold axx axy ayy =
     (case p_value ops total_contrasts axx axy ayy of
        Inl e \<Rightarrow> False
      | Inr p_val \<Rightarrow> np_gt p_val (Finite threshold))"

definition symmetric :: "'a list list \<Rightarrow> bool" where
  "symmetric M = (\<forall>i<length M. \<forall>j<length M. M ! i ! j = M ! j ! i)"

subsection \<open>The float64 operations, for evaluating the filter\<close>

text \<open>
  One choice of the four operations, used to run the filter on concrete matrices.
  Division and product are the IEEE operations: the special values as in \<open>np_div\<close> and
  \<open>np_mul\<close>, a finite result rounded by \<open>float64_round\<close>, so that a product can underflow
  to zero or overflow to an infinity.
\<close>

definition f64_div :: "npfloat \<Rightarrow> npfloat \<Rightarrow> npfloat" where
  "f64_div a b = (case np_div a b of Finite r \<Rightarrow> float64_round r | v \<Rightarrow> v)"

definition f64_mul :: "npfloat \<Rightarrow> npfloat \<Rightarrow> npfloat" where
  "f64_mul a b = (case np_mul a b of Finite r \<Rightarrow> float64_round r | v \<Rightarrow> v)"

text \<open>
  \<^verbatim>\<open>scipy.stats.binom.pmf(k, n, p)\<close> for integral \<open>k\<close> and \<open>n\<close>: NaN when the parameters
  are invalid (\<open>n < 0\<close>, or \<open>p\<close> not a number in \<open>[0, 1]\<close>), \<open>0\<close> outside the support
  \<open>0 \<le> k \<le> n\<close>, and otherwise a float64 near the binomial probability (with \<open>0 ^ 0 = 1\<close>).
  \<^verbatim>\<open>math.log10(x)\<close> raises \<^verbatim>\<open>ValueError\<close> for zero, for a negative number and for \<open>-inf\<close>; it
  returns \<open>inf\<close> for \<open>inf\<close>, NaN for NaN and otherwise a float64 near the logarithm. Here
  both results are the nearest float64; the libraries may differ from that in the last
  bits, which is why no general fact below is about this choice.
\<close>

definition scipy_binom_pmf :: "int \<Rightarrow> int \<Rightarrow> npfloat \<Rightarrow> npfloat" where
  "scipy_binom_pmf k n p =
     (case p of
        Finite q \<Rightarrow>
          if n < 0 \<or> q < 0 \<or> 1 < q then NaN
          else if k < 0 \<or> n < k then Finite 0
          else float64_round (real (nat n choose nat k) * q ^ nat k * (1 - q) ^ nat (n - k))
      | _ \<Rightarrow> NaN)"

definition math_log10 :: "npfloat \<Rightarrow> py_error + npfloat" where
  "math_log10 v =
     (case v of
        Finite r \<Rightarrow> if 0 < r then Inr (float64_round (log 10 r)) else Inl ValueError
      | PInf \<Rightarrow> Inr PInf
      | NInf \<Rightarrow> Inl ValueError
      | NaN \<Rightarrow> Inr NaN)"

definition float64_ops :: float_ops where
  "float64_ops =
     \<lparr>true_divide = f64_div, multiply = f64_mul, binom_pmf = scipy_binom_pmf,
      log10 = math_log10\<rparr>"

section \<open>Properties\<close>

subsection \<open>Facts about the matrix builder\<close>

lemma ratio_of_counts_bounds:
  "(a::nat) \<le> b \<Longrightarrow>
     0 \<le> (if real b \<noteq> 0 then real a / real b else 0) \<and>
     (if real b \<noteq> 0 then real a / real b else 0) \<le> 1"
  by (simp add: divide_le_eq_1)

lemma jaccard_cell_bounds: "0 \<le> jaccard_cell x y \<and> jaccard_cell x y \<le> 1"
proof -
  have "card (set x \<inter> set y) \<le> card (set x \<union> set y)"
    by (rule card_mono) auto
  then show ?thesis
    unfolding jaccard_cell_def Let_def by (rule ratio_of_counts_bounds)
qed

lemma jaccard_cell_self: "jaccard_cell x x = (if x = [] then 0 else 1)"
  by (cases x) (simp_all add: jaccard_cell_def Let_def card_gt_0_iff)

lemma build_jaccard_nth:
  "i < length ks \<Longrightarrow> j < length ks \<Longrightarrow> build_jaccard ks ! i ! j = jaccard_cell (ks ! i) (ks ! j)"
  by (simp add: build_jaccard_def)

lemma build_jaccard_via_sets:
  "build_jaccard ks =
     map (\<lambda>a. map (\<lambda>b. if real (card (a \<union> b)) \<noteq> 0
                         then real (card (a \<inter> b)) / real (card (a \<union> b)) else 0)
                  (map set ks)) (map set ks)"
  by (simp add: build_jaccard_def jaccard_cell_def Let_def comp_def)

lemma build_n_coactives_via_sets:
  "build_n_coactives_array ks =
     map (\<lambda>a. map (\<lambda>b. int (card (a \<inter> b))) (map set ks)) (map set ks)"
  by (simp add: build_n_coactives_array_def comp_def)

lemma map_set_dedup: "map set (ks[i := remdups (ks ! i)]) = map set ks"
proof (cases "i < length ks")
  case True
  then show ?thesis
    by (simp add: map_update list_update_same_conv)
next
  case False
  then show ?thesis
    by (simp add: list_update_beyond)
qed

text \<open>
  Claim C9. Every entry of the matrix returned by \<open>build_jaccard\<close> lies between 0 and 1,
  and the diagonal entry of region \<open>i\<close> is 1 when its keycode set is non-empty and 0 when
  it is empty; no input makes the function fail.
\<close>

theorem build_jaccard_range_and_diagonal:
  "(\<forall>i<length ks. \<forall>j<length ks.
       0 \<le> build_jaccard ks ! i ! j \<and> build_jaccard ks ! i ! j \<le> 1) \<and>
   (\<forall>i<length ks. build_jaccard ks ! i ! i = (if set (ks ! i) = {} then 0 else 1))"
  by (simp add: build_jaccard_nth jaccard_cell_bounds jaccard_cell_self)

theorem build_jaccard_range_and_diagonal_witness:
  "build_jaccard [[1, 2, 3], [2, 3, 4], [5 :: nat], []] ! 0 ! 1 = 1 / 2 \<and>
   build_jaccard [[1, 2, 3], [2, 3, 4], [5 :: nat], []] ! 2 ! 2 = 1 \<and>
   build_jaccard [[1, 2, 3], [2, 3, 4], [5 :: nat], []] ! 3 ! 3 = 0 \<and>
   0 \<le> build_jaccard [[1, 2, 3], [2, 3, 4], [5 :: nat], []] ! 0 ! 1 \<and>
   build_jaccard [[1, 2, 3], [2, 3, 4], [5 :: nat], []] ! 0 ! 1 \<le> 1"
proof -
  let ?ks = "[[1, 2, 3], [2, 3, 4], [5 :: nat], []]"
  have len: "length ?ks = 4" by simp
  have a: "build_jaccard ?ks ! 0 ! 1 = 1 / 2"
    by (simp add: build_jaccard_def jaccard_cell_def Let_def Int_insert_left Un_insert_left
        card_insert_if)
  from build_jaccard_range_and_diagonal [of ?ks]
  have b: "build_jaccard ?ks ! 2 ! 2 = 1" and c: "build_jaccard ?ks ! 3 ! 3 = 0"
    and d: "0 \<le> build_jaccard ?ks ! 0 ! 1 \<and> build_jaccard ?ks ! 0 ! 1 \<le> 1"
    unfolding len by simp_all
  from a b c d show ?thesis by blast
qed

text \<open>
  Claim C10. Both builders read a region's keycode list only through the set of its
  elements: replacing the list of any region \<open>i\<close> by its deduplicated version changes
  neither output matrix, and the diagonal entry \<open>C[i][i]\<close> of the co-activation matrix is
  the number of distinct keycodes of region \<open>i\<close>.
\<close>

theorem builders_ignore_duplicates:
  "build_n_coactives_array (ks[i := remdups (ks ! i)]) = build_n_coactives_array ks \<and>
   build_jaccard (ks[i := remdups (ks ! i)]) = build_jaccard ks \<and>
   (i < length ks \<longrightarrow>
      build_n_coactives_array ks ! i ! i = int (length (remdups (ks ! i))))"
proof -
  have "build_n_coactives_array (ks[i := remdups (ks ! i)]) = build_n_coactives_array ks"
    unfolding build_n_coactives_via_sets map_set_dedup ..
  moreover have "build_jaccard (ks[i := remdups (ks ! i)]) = build_jaccard ks"
    unfolding build_jaccard_via_sets map_set_dedup ..
  moreover have "i < length ks \<longrightarrow>
      build_n_coactives_array ks ! i ! i = int (length (remdups (ks ! i)))"
    by (simp add: build_n_coactives_array_def length_remdups_card_conv)
  ultimately show ?thesis by blast
qed

theorem builders_ignore_duplicates_witness:
  "(0::nat) < length [[7, 7, 8 :: nat], [8]] \<and>
   build_n_coactives_array [[7, 7, 8 :: nat], [8]] ! 0 ! 0 = 2 \<and>
   length [7, 7, 8 :: nat] = 3 \<and>
   build_n_coactives_array [[7, 8 :: nat], [8]] =
     build_n_coactives_array [[7, 7, 8 :: nat], [8]] \<and>
   build_jaccard [[7, 8 :: nat], [8]] = build_jaccard [[7, 7, 8 :: nat], [8]]"
  using builders_ignore_duplicates [of "[[7, 7, 8 :: nat], [8]]" 0] by simp

subsection \<open>Facts about the influence estimator\<close>

lemma square_nth: "square M \<Longrightarrow> i < length M \<Longrightarrow> length (M ! i) = length M"
  by (simp add: square_def)

lemma build_influence_matrix_nth:
  assumes "square C" "i < length C" "j < length C"
  shows "build_influence_matrix C ! i ! j =
     np_sub (np_div (of_count (C ! i ! j)) (of_count (C ! i ! i)))
            (np_div (of_count (C ! i ! j)) (of_count (C ! j ! j)))"
  using assms by (simp add: build_influence_matrix_def Let_def diagonal_def square_nth)

lemma build_influence_matrix_length:
  "length (build_influence_matrix C) = length C"
  by (simp add: build_influence_matrix_def Let_def diagonal_def)

lemma build_influence_matrix_row_length:
  assumes "square C" "i < length C"
  shows "length (build_influence_matrix C ! i) = length C"
  using assms by (simp add: build_influence_matrix_def Let_def diagonal_def square_nth)

lemma build_positive_influence_matrix_nth:
  assumes "square C" "i < length C" "j < length C"
  shows "build_positive_influence_matrix C ! i ! j =
     np_mul (build_influence_matrix C ! i ! j)
       (if np_gt (build_influence_matrix C ! i ! j) (Finite 0) then Finite 1 else Finite 0)"
  using assms
  by (simp add: build_positive_influence_matrix_def Let_def build_influence_matrix_length
      build_influence_matrix_row_length)

text \<open>
  Claim C2, as stated: \<open>I[i][j] = C[i][j]/C[j][j] - C[i][j]/C[i][i]\<close>. The source computes
  the difference the other way round; at \<open>C = [[1, 1], [1, 2]]\<close> the entry \<open>I[0][1]\<close> is
  \<open>1/1 - 1/2\<close>, not \<open>1/2 - 1/1\<close>.
\<close>

theorem build_influence_matrix_sign_counterexample:
  "build_influence_matrix [[1, 1], [1, 2]] ! 0 ! 1 \<noteq>
     Finite (real_of_int ([[1, 1], [1, 2]] ! 0 ! 1) / real_of_int ([[1, 1], [1, 2]] ! 1 ! 1) -
             real_of_int ([[1, 1], [1, 2]] ! 0 ! 1) / real_of_int ([[1, 1], [1, 2]] ! 0 ! 0))"
  by (simp add: build_influence_matrix_def Let_def diagonal_def of_count_def)

text \<open>
  Claim C2, amended. For every \<open>N \<times> N\<close> co-activation matrix \<open>C\<close> with every diagonal entry
  nonzero, \<open>build_influence_matrix C\<close> has \<open>I[i][j] = C[i][j]/C[i][i] - C[i][j]/C[j][j]\<close>
  for all \<open>i\<close>, \<open>j\<close>: the co-activation normalised by the row's own count minus the same
  normalised by the column's own count. So \<open>I[i][j]\<close> is positive exactly when the share of
  region \<open>i\<close>'s activations that are shared with \<open>j\<close> exceeds the share of region \<open>j\<close>'s
  activations that are shared with \<open>i\<close>.
\<close>

theorem build_influence_matrix_entry:
  assumes "square C" and "\<forall>k<length C. C ! k ! k \<noteq> 0" and "i < length C" and "j < length C"
  shows "build_influence_matrix C ! i ! j =
           Finite (real_of_int (C ! i ! j) / real_of_int (C ! i ! i) -
                   real_of_int (C ! i ! j) / real_of_int (C ! j ! j)) \<and>
         (np_gt (build_influence_matrix C ! i ! j) (Finite 0) \<longleftrightarrow>
            real_of_int (C ! i ! j) / real_of_int (C ! j ! j) <
            real_of_int (C ! i ! j) / real_of_int (C ! i ! i))"
  using assms by (simp add: build_influence_matrix_nth of_count_def)

theorem build_influence_matrix_entry_witness:
  "square [[1, 1], [1, 2 :: int]] \<and>
   build_influence_matrix [[1, 1], [1, 2]] ! 0 ! 1 = Finite (1 / 2) \<and>
   np_gt (build_influence_matrix [[1, 1], [1, 2]] ! 0 ! 1) (Finite 0)"
  using build_influence_matrix_entry [of "[[1, 1], [1, 2]]" 0 1]
  by (simp add: square_def less_Suc_eq)

text \<open>
  Claim C5, as stated: a zero diagonal entry makes the influence estimator raise an error.
  The source has no such check and numpy's division does not raise: for the regions
  \<open>[]\<close> and \<open>[1, 2, 3]\<close> the co-activation matrix is \<open>[[0, 0], [0, 3]]\<close>, and both
  estimators return a matrix with NaN entries.
\<close>

theorem zero_diagonal_no_error_counterexample:
  "build_n_coactives_array [[], [1, 2, 3 :: nat]] = [[0, 0], [0, 3]] \<and>
   build_influence_matrix [[0, 0], [0, 3]] = [[NaN, NaN], [NaN, Finite 0]] \<and>
   build_positive_influence_matrix [[0, 0], [0, 3]] = [[NaN, NaN], [NaN, Finite 0]]"
  by (simp add: build_n_coactives_array_def build_positive_influence_matrix_def
      build_influence_matrix_def Let_def diagonal_def of_count_def)

text \<open>
  Claim C5, amended. For every \<open>N \<times> N\<close> co-activation matrix with a zero diagonal entry
  \<open>C[i][i]\<close>, \<open>build_influence_matrix\<close> and \<open>build_positive_influence_matrix\<close> raise no error:
  each returns a matrix whose entry \<open>(i, i)\<close> is NaN.
\<close>

theorem zero_diagonal_gives_nan:
  assumes "square C" and "i < length C" and "C ! i ! i = 0"
  shows "build_influence_matrix C ! i ! i = NaN \<and>
         build_positive_influence_matrix C ! i ! i = NaN"
  using assms
  by (simp add: build_positive_influence_matrix_nth build_influence_matrix_nth of_count_def)

theorem zero_diagonal_gives_nan_witness:
  "square [[0, 0], [0, 3 :: int]] \<and>
   build_influence_matrix [[0, 0], [0, 3]] ! 0 ! 0 = NaN \<and>
   build_positive_influence_matrix [[0, 0], [0, 3]] ! 0 ! 0 = NaN"
  using zero_diagonal_gives_nan [of "[[0, 0], [0, 3]]" 0]
  by (simp add: square_def)

subsection \<open>Facts about the graph thresholder\<close>

lemma same_edge_refl: "same_edge p p"
  by (cases p) simp

lemma no_dup_edges_unique:
  "no_dup_edges es \<Longrightarrow> e \<in> set es \<Longrightarrow> e' \<in> set es \<Longrightarrow> same_edge (fst e) (fst e') \<Longrightarrow> e = e'"
proof (induction es)
  case Nil
  then show ?case by simp
next
  case (Cons a es)
  have sym: "same_edge p q \<Longrightarrow> same_edge q p" for p q :: "'a \<times> 'a"
    by (cases p; cases q) auto
  from Cons show ?case
    by (auto simp: list_all_iff dest: sym)
qed

lemma find_own_edge:
  "no_dup_edges es \<Longrightarrow> e \<in> set es \<Longrightarrow> find (\<lambda>e'. same_edge (fst e') (fst e)) es = Some e"
proof (induction es)
  case Nil
  then show ?case by simp
next
  case (Cons a es)
  show ?case
  proof (cases "a = e")
    case True
    then show ?thesis by (simp add: same_edge_refl)
  next
    case False
    with Cons.prems have "e \<in> set es" by simp
    moreover from Cons.prems this have "\<not> same_edge (fst a) (fst e)"
      by (auto simp: list_all_iff)
    ultimately show ?thesis using Cons by simp
  qed
qed

lemma get_weight_own_edge:
  "no_dup_edges (edges G) \<Longrightarrow> e \<in> set (edges G) \<Longrightarrow> get_weight G (fst (fst e)) (snd (fst e)) = Inr (snd e)"
  using find_own_edge [of "edges G" e] by (simp add: get_weight_def)

lemma collect_weights:
  assumes "no_dup_edges (edges G)" and "set es \<subseteq> set (edges G)"
  shows "collect (\<lambda>(x, y). get_weight G x y) (map fst es) = Inr (map snd es)"
  using assms(2)
proof (induction es)
  case Nil
  then show ?case by simp
next
  case (Cons e es)
  then have "get_weight G (fst (fst e)) (snd (fst e)) = Inr (snd e)"
    using assms(1) by (simp add: get_weight_own_edge)
  with Cons show ?case
    by (simp add: case_prod_unfold)
qed

lemma select_below:
  assumes "no_dup_edges (edges G)" and "set es \<subseteq> set (edges G)"
  shows "select (\<lambda>(x, y). case get_weight G x y of Inl e \<Rightarrow> Inl e | Inr w \<Rightarrow> Inr (w < t))
           (map fst es) = Inr (map fst (filter (\<lambda>e. snd e < t) es))"
  using assms(2)
proof (induction es)
  case Nil
  then show ?case by simp
next
  case (Cons e es)
  then have "get_weight G (fst (fst e)) (snd (fst e)) = Inr (snd e)"
    using assms(1) by (simp add: get_weight_own_edge)
  with Cons show ?case
    by (simp add: case_prod_unfold)
qed

lemma remove_edges_from_below:
  assumes "no_dup_edges (edges G)"
  shows "remove_edges_from G (map fst (filter (\<lambda>e. snd e < t) (edges G))) =
           G\<lparr>edges := filter (\<lambda>e. \<not> snd e < t) (edges G)\<rparr>"
proof -
  have "list_ex (\<lambda>p. same_edge (fst e) p) (map fst (filter (\<lambda>e. snd e < t) (edges G)))
          \<longleftrightarrow> snd e < t" if "e \<in> set (edges G)" for e
  proof
    assume "list_ex (\<lambda>p. same_edge (fst e) p) (map fst (filter (\<lambda>e. snd e < t) (edges G)))"
    then obtain e' where "e' \<in> set (edges G)" "snd e' < t" "same_edge (fst e) (fst e')"
      by (auto simp: list_ex_iff)
    moreover from this have "e = e'"
      using no_dup_edges_unique [OF assms that] by blast
    ultimately show "snd e < t" by simp
  next
    assume "snd e < t"
    with that have "fst e \<in> set (map fst (filter (\<lambda>e. snd e < t) (edges G)))"
      by simp
    then show "list_ex (\<lambda>p. same_edge (fst e) p) (map fst (filter (\<lambda>e. snd e < t) (edges G)))"
      unfolding list_ex_iff using same_edge_refl by blast
  qed
  then have "filter (\<lambda>e. \<not> list_ex (\<lambda>p. same_edge (fst e) p)
                 (map fst (filter (\<lambda>e. snd e < t) (edges G)))) (edges G) =
             filter (\<lambda>e. \<not> snd e < t) (edges G)"
    by (intro filter_cong) auto
  then show ?thesis
    by (simp add: remove_edges_from_def)
qed

lemma round_half_even_int: "round_half_even (real_of_int k) = k"
  by (simp add: round_half_even_def)

lemma round_half_even_nonneg: "0 \<le> q \<Longrightarrow> 0 \<le> round_half_even q"
  by (auto simp: round_half_even_def Let_def)

lemma float64_round_nonneg:
  assumes "float64_round x = Finite y" "0 \<le> x"
  shows "0 \<le> y"
proof (cases "x = 0")
  case True
  with assms show ?thesis by (simp add: float64_round_def)
next
  case False
  define e where "e = max (\<lfloor>log 2 \<bar>x\<bar>\<rfloor> - 52) (- 1074)"
  have "0 \<le> x / 2 powr real_of_int e"
    using assms(2) by simp
  then have "0 \<le> real_of_int (round_half_even (x / 2 powr real_of_int e)) * 2 powr real_of_int e"
    by (intro mult_nonneg_nonneg) (simp_all add: round_half_even_nonneg)
  moreover from assms(1) False
  have "y = real_of_int (round_half_even (x / 2 powr real_of_int e)) * 2 powr real_of_int e"
    by (simp add: float64_round_def Let_def e_def split: if_splits)
  ultimately show ?thesis by simp
qed

lemma floor_log2_eq:
  assumes "2 powr real_of_int p \<le> x" "x < 2 powr (real_of_int p + 1)"
  shows "\<lfloor>log 2 x\<rfloor> = p"
proof -
  have "(0::real) < 2 powr real_of_int p"
    by simp
  with assms(1) have pos: "0 < x"
    by linarith
  have "real_of_int p \<le> log 2 x"
    using assms(1) pos by (simp add: le_log_iff)
  moreover have "log 2 x < real_of_int p + 1"
    using assms(2) pos by (simp add: log_less_iff)
  ultimately show ?thesis
    by (simp add: floor_eq_iff)
qed

lemma float64_round_eval:
  assumes "2 powr real_of_int p \<le> \<bar>x\<bar>" "\<bar>x\<bar> < 2 powr (real_of_int p + 1)" "- 1022 \<le> p"
    and "y = real_of_int (round_half_even (x / 2 powr real_of_int (p - 52))) *
             2 powr real_of_int (p - 52)"
    and "\<bar>y\<bar> < 2 ^ 1024"
  shows "float64_round x = Finite y"
proof -
  have "x \<noteq> 0"
    using assms(1) powr_gt_zero [of 2 "real_of_int p"] by auto
  moreover have "\<lfloor>log 2 \<bar>x\<bar>\<rfloor> = p"
    using assms(1,2) by (rule floor_log2_eq)
  moreover have "max (p - 52) (- 1074) = p - 52"
    using assms(3) by simp
  ultimately show ?thesis
    using assms(4,5) by (simp add: float64_round_def Let_def)
qed

lemma float64_round_subnormal:
  assumes "2 powr real_of_int p \<le> \<bar>x\<bar>" "\<bar>x\<bar> < 2 powr (real_of_int p + 1)" "p \<le> - 1022"
    and "round_half_even (x * 2 ^ 1074) = k" and "\<bar>k\<bar> < 2 ^ 53"
  shows "float64_round x = Finite (real_of_int k / 2 ^ 1074)"
proof -
  have "x \<noteq> 0"
    using assms(1) powr_gt_zero [of 2 "real_of_int p"] by auto
  moreover have "\<lfloor>log 2 \<bar>x\<bar>\<rfloor> = p"
    using assms(1,2) by (rule floor_log2_eq)
  moreover have "max (p - 52) (- 1074) = - 1074"
    using assms(3) by simp
  moreover have pw: "2 powr real_of_int (- 1074) = 1 / 2 ^ 1074"
    by (simp add: powr_minus powr_realpow divide_simps)
  moreover have "x / (1 / 2 ^ 1074) = x * 2 ^ 1074"
    by simp
  moreover have "\<bar>real_of_int k / 2 ^ 1074\<bar> < 2 ^ 1024"
  proof -
    have "\<bar>real_of_int k\<bar> < 2 ^ 53"
      using assms(5) by (metis of_int_abs of_int_less_numeral_power_cancel_iff)
    moreover have "\<bar>real_of_int k / 2 ^ 1074\<bar> \<le> \<bar>real_of_int k\<bar>"
      by (simp add: divide_le_eq)
    moreover have "(2::real) ^ 53 \<le> 2 ^ 1024"
      by (rule power_increasing) simp_all
    ultimately show ?thesis by linarith
  qed
  ultimately show ?thesis
    unfolding float64_round_def Let_def
    by (simp only: assms(4)) simp
qed

lemma float64_round_int:
  assumes "\<bar>n\<bar> < 2 ^ 53"
  shows "float64_round (real_of_int n) = Finite (real_of_int n)"
proof (cases "n = 0")
  case True
  then show ?thesis by (simp add: float64_round_def)
next
  case False
  define p where "p = \<lfloor>log 2 \<bar>real_of_int n\<bar>\<rfloor>"
  have n1: "1 \<le> \<bar>real_of_int n\<bar>" using False by (simp flip: of_int_abs)
  then have "0 \<le> log 2 \<bar>real_of_int n\<bar>" by simp
  then have p0: "0 \<le> p" by (simp add: p_def)
  have small: "\<bar>real_of_int n\<bar> < 2 ^ 53"
    using assms by (metis of_int_abs of_int_less_numeral_power_cancel_iff)
  then have "log 2 \<bar>real_of_int n\<bar> < 53"
    using n1 by (simp add: log_less_iff powr_realpow flip: powr_numeral)
  then have p52: "p \<le> 52" by (simp add: p_def floor_le_iff)
  define s where "s = nat (52 - p)"
  have e: "max (p - 52) (- 1074) = - int s"
    using p0 p52 by (simp add: s_def)
  have pw: "2 powr real_of_int (- int s) = 1 / 2 ^ s"
    by (simp add: powr_minus powr_realpow divide_simps)
  have q: "real_of_int n / (1 / 2 ^ s) = real_of_int (n * 2 ^ s)"
    by simp
  have y: "real_of_int (round_half_even (real_of_int n / (1 / 2 ^ s))) * (1 / 2 ^ s) = real_of_int n"
    unfolding q round_half_even_int by simp
  have big: "\<bar>real_of_int n\<bar> < 2 ^ 1024"
  proof -
    have "(2::real) ^ 53 \<le> 2 ^ 1024" by (rule power_increasing) simp_all
    with small show ?thesis by linarith
  qed
  show ?thesis
    using False big unfolding float64_round_def Let_def p_def [symmetric] e pw y
    by simp
qed

lemma float64_round_nat:
  "n < 2 ^ 53 \<Longrightarrow> float64_round (real n) = Finite (real n)"
  using float64_round_int [of "int n"] by simp

lemma float64_round_numeral:
  "\<bar>numeral w :: int\<bar> < 2 ^ 53 \<Longrightarrow> float64_round (numeral w) = Finite (numeral w)"
  using float64_round_int [of "numeral w"] by simp

lemma float64_round_zero: "float64_round 0 = Finite 0"
  by (simp add: float64_round_def)

lemma float64_round_tenth_times_ten:
  "float64_round (10 * (5404319552844595 / 18014398509481984)) = Finite 3"
  by (rule float64_round_eval [where p = 1])
    (simp_all add: powr_add powr_minus round_half_even_def)

lemma requested_edges_eq:
  assumes "complete_graph_number_of_edges n < 2 ^ 53"
  shows "requested_edges n cost =
           py_int (float64_round (real (complete_graph_number_of_edges n) * cost))"
  using float64_round_nat [OF assms]
  by (simp add: requested_edges_def py_int_times_float_def)

lemma applycost_to_g_unfold:
  assumes "wf_graph G"
  shows "applycost_to_g G cost =
     (case requested_edges (number_of_nodes G) cost of
        Inl e \<Rightarrow> Inl e
      | Inr n_edges_keep \<Rightarrow>
          (case py_index (rev (sort (map snd (edges G)))) (n_edges_keep + 1) of
             Inl e \<Rightarrow> Inl e
           | Inr thresh \<Rightarrow> Inr (G\<lparr>edges := filter (\<lambda>e. \<not> snd e < thresh) (edges G)\<rparr>)))"
proof -
  from assms have nd: "no_dup_edges (edges G)"
    by (simp add: wf_graph_def)
  show ?thesis
    unfolding applycost_to_g_def Let_def edges_iter_def
    by (simp add: collect_weights [OF nd] select_below [OF nd] remove_edges_from_below [OF nd]
        split: sum.splits)
qed

lemma py_index_nat:
  "py_index xs (int k) = (if k < length xs then Inr (xs ! k) else Inl IndexError)"
  by (simp add: py_index_def)

lemma complete_graph_number_of_edges_choose:
  "complete_graph_number_of_edges n = n choose 2"
  by (simp add: complete_graph_number_of_edges_def choose_two)

lemma applycost_to_g_index_beyond:
  assumes "wf_graph G"
    and "requested_edges (number_of_nodes G) cost = Inr k"
    and "int (length (edges G)) \<le> k + 1"
  shows "applycost_to_g G cost = Inl IndexError"
proof -
  from assms(3) have "py_index (rev (sort (map snd (edges G)))) (k + 1) = Inl IndexError"
    by (simp add: py_index_def)
  then show ?thesis
    by (simp add: applycost_to_g_unfold [OF assms(1)] assms(2))
qed

text \<open>
  Claim C6, as stated: \<open>n_edges_keep = floor (cost * C(N, 2))\<close>. The source truncates the
  float64 product, which is rounded first. For the float \<open>0.3\<close> (the number
  \<open>5404319552844595 / 2 ^ 54\<close>) and five nodes the exact product is just below \<open>3\<close>, with
  floor \<open>2\<close>, so the claim's threshold is the weight at index \<open>3\<close> (here \<open>7\<close>, which would
  remove the edge of weight \<open>6\<close>); the float product is \<open>3.0\<close>, the source takes the weight at
  index \<open>4\<close> and all five edges of the cycle stay.
\<close>

theorem applycost_to_g_exact_floor_counterexample:
  "0 \<le> (5404319552844595 / 18014398509481984 :: real) \<and>
   (5404319552844595 / 18014398509481984 :: real) \<le> 1 \<and>
   \<lfloor>(5404319552844595 / 18014398509481984) *
     real (number_of_nodes \<lparr>nodes = [0, 1, 2, 3, 4 :: nat],
             edges = [((0, 1), 10 :: int), ((1, 2), 9), ((2, 3), 8), ((3, 4), 7), ((0, 4), 6)]\<rparr>
           choose 2)\<rfloor> = 2 \<and>
   rev (sort (map snd (edges \<lparr>nodes = [0, 1, 2, 3, 4 :: nat],
             edges = [((0, 1), 10 :: int), ((1, 2), 9), ((2, 3), 8), ((3, 4), 7), ((0, 4), 6)]\<rparr>)))
     ! (2 + 1) = 7 \<and>
   filter (\<lambda>e. \<not> snd e < 7) (edges \<lparr>nodes = [0, 1, 2, 3, 4 :: nat],
             edges = [((0, 1), 10 :: int), ((1, 2), 9), ((2, 3), 8), ((3, 4), 7), ((0, 4), 6)]\<rparr>) =
     [((0, 1), 10), ((1, 2), 9), ((2, 3), 8), ((3, 4), 7)] \<and>
   applycost_to_g \<lparr>nodes = [0, 1, 2, 3, 4 :: nat],
             edges = [((0, 1), 10 :: int), ((1, 2), 9), ((2, 3), 8), ((3, 4), 7), ((0, 4), 6)]\<rparr>
       (5404319552844595 / 18014398509481984) =
     Inr \<lparr>nodes = [0, 1, 2, 3, 4],
          edges = [((0, 1), 10), ((1, 2), 9), ((2, 3), 8), ((3, 4), 7), ((0, 4), 6)]\<rparr>"
proof -
  let ?G = "\<lparr>nodes = [0, 1, 2, 3, 4 :: nat],
             edges = [((0, 1), 10 :: int), ((1, 2), 9), ((2, 3), 8), ((3, 4), 7), ((0, 4), 6)]\<rparr>"
  have nodes: "number_of_nodes ?G = 5"
    by (simp add: number_of_nodes_def)
  have pairs: "complete_graph_number_of_edges 5 = 10"
    by (simp add: complete_graph_number_of_edges_def)
  have "requested_edges 5 (5404319552844595 / 18014398509481984) =
          py_int (float64_round (real (complete_graph_number_of_edges 5) *
                                 (5404319552844595 / 18014398509481984)))"
    by (rule requested_edges_eq) (simp add: pairs)
  also have "\<dots> = py_int (Finite 3)"
    unfolding pairs by (simp only: of_nat_numeral float64_round_tenth_times_ten)
  also have "\<dots> = Inr 3"
    by (simp add: py_int_def)
  finally have "requested_edges (number_of_nodes ?G) (5404319552844595 / 18014398509481984) = Inr 3"
    unfolding nodes .
  then have "applycost_to_g ?G (5404319552844595 / 18014398509481984) = Inr ?G"
    by (simp add: applycost_to_g_def Let_def edges_iter_def get_weight_def py_index_def
        remove_edges_from_def)
  moreover have "\<lfloor>(5404319552844595 / 18014398509481984) *
     real (number_of_nodes ?G choose 2)\<rfloor> = 2"
    by (simp add: number_of_nodes_def choose_two)
  moreover have "rev (sort (map snd (edges ?G))) ! (2 + 1) = 7"
    by simp
  moreover have "filter (\<lambda>e. \<not> snd e < 7) (edges ?G) =
     [((0, 1), 10), ((1, 2), 9), ((2, 3), 8), ((3, 4), 7)]"
    by simp
  ultimately show ?thesis
    by simp
qed

text \<open>
  Claim C6, amended. For a well-formed weighted graph \<open>G\<close> with \<open>N\<close> nodes (\<open>C(N, 2)\<close> below
  \<open>2 ^ 53\<close>) and a cost that is not negative, let \<open>product\<close> be the float64 product of
  \<open>C(N, 2)\<close> and the cost, that is their product rounded to the nearest float64,
  \<open>n_edges_keep = floor product\<close>, and \<open>t\<close> the element at index \<open>n_edges_keep + 1\<close> of the edge
  weights sorted in descending order, that index being in bounds. Then
  \<open>applycost_to_g G cost\<close> returns \<open>G\<close> with exactly the edges of weight strictly below \<open>t\<close>
  removed; the nodes, and the surviving edges with their weights, are those of \<open>G\<close>.
\<close>

theorem applycost_to_g_threshold:
  assumes "wf_graph G" and "0 \<le> cost"
    and "number_of_nodes G choose 2 < 2 ^ 53"
    and "float64_round (real (number_of_nodes G choose 2) * cost) = Finite product"
    and "n_edges_keep = nat \<lfloor>product\<rfloor>"
    and "n_edges_keep + 1 < length (edges G)"
    and "t = rev (sort (map snd (edges G))) ! (n_edges_keep + 1)"
  shows "applycost_to_g G cost = Inr (G\<lparr>edges := filter (\<lambda>e. \<not> snd e < t) (edges G)\<rparr>)"
proof -
  have "0 \<le> real (number_of_nodes G choose 2) * cost"
    using assms(2) by simp
  with assms(4) have nonneg: "0 \<le> product"
    by (rule float64_round_nonneg)
  have "requested_edges (number_of_nodes G) cost = py_int (Finite product)"
    using assms(3,4) by (simp add: requested_edges_eq complete_graph_number_of_edges_choose)
  also have "\<dots> = Inr (int n_edges_keep)"
    using nonneg assms(5) by (simp add: py_int_def)
  finally have k: "requested_edges (number_of_nodes G) cost = Inr (int n_edges_keep)" .
  have "int n_edges_keep + 1 = int (n_edges_keep + 1)"
    by simp
  then have "py_index (rev (sort (map snd (edges G)))) (int n_edges_keep + 1) = Inr t"
    using assms(6,7) by (simp only: py_index_nat) simp
  then show ?thesis
    by (simp add: applycost_to_g_unfold [OF assms(1)] k)
qed

theorem applycost_to_g_threshold_witness:
  "wf_graph \<lparr>nodes = [0, 1, 2, 3 :: nat],
             edges = [((0, 1), 10 :: int), ((0, 2), 9), ((0, 3), 8),
                      ((1, 2), 7), ((1, 3), 6), ((2, 3), 5)]\<rparr> \<and>
   applycost_to_g \<lparr>nodes = [0, 1, 2, 3 :: nat],
             edges = [((0, 1), 10 :: int), ((0, 2), 9), ((0, 3), 8),
                      ((1, 2), 7), ((1, 3), 6), ((2, 3), 5)]\<rparr> (1 / 2) =
     Inr \<lparr>nodes = [0, 1, 2, 3],
          edges = [((0, 1), 10), ((0, 2), 9), ((0, 3), 8), ((1, 2), 7), ((1, 3), 6)]\<rparr>"
proof -
  let ?G = "\<lparr>nodes = [0, 1, 2, 3 :: nat],
             edges = [((0, 1), 10 :: int), ((0, 2), 9), ((0, 3), 8),
                      ((1, 2), 7), ((1, 3), 6), ((2, 3), 5)]\<rparr>"
  have wf: "wf_graph ?G"
    by (simp add: wf_graph_def)
  have pairs: "number_of_nodes ?G choose 2 = 6"
    by (simp add: number_of_nodes_def choose_two)
  have small: "number_of_nodes ?G choose 2 < 2 ^ 53"
    unfolding pairs by simp
  have "float64_round (real_of_int 3) = Finite (real_of_int 3)"
    by (rule float64_round_int) simp
  then have product: "float64_round (real (number_of_nodes ?G choose 2) * (1 / 2)) = Finite 3"
    unfolding pairs by simp
  have keep: "(3::nat) = nat \<lfloor>3 :: real\<rfloor>"
    by simp
  have bound: "(3::nat) + 1 < length (edges ?G)"
    by simp
  have t: "(6::int) = rev (sort (map snd (edges ?G))) ! (3 + 1)"
    by simp
  from applycost_to_g_threshold [OF wf _ small product keep bound t] wf show ?thesis
    by simp
qed

text \<open>
  Claim C7, as stated: when the requested edge-keep count meets or exceeds the number of
  edge weights, the call keeps all edges instead of failing. The source indexes the sorted
  weights without any bounds check or handler: on the path \<open>0 - 1 - 2\<close> (two edges) with
  cost 1 the count is 3 and the call raises \<^verbatim>\<open>IndexError\<close>.
\<close>

theorem applycost_to_g_no_recovery_counterexample:
  "requested_edges
     (number_of_nodes \<lparr>nodes = [0, 1, 2 :: nat], edges = [((0, 1), 5 :: int), ((1, 2), 4)]\<rparr>) 1 =
     Inr 3 \<and>
   int (length (edges \<lparr>nodes = [0, 1, 2 :: nat], edges = [((0, 1), 5 :: int), ((1, 2), 4)]\<rparr>))
     \<le> 3 \<and>
   applycost_to_g \<lparr>nodes = [0, 1, 2 :: nat], edges = [((0, 1), 5 :: int), ((1, 2), 4)]\<rparr> 1 =
     Inl IndexError"
proof -
  let ?G = "\<lparr>nodes = [0, 1, 2 :: nat], edges = [((0, 1), 5 :: int), ((1, 2), 4)]\<rparr>"
  have k: "requested_edges (number_of_nodes ?G) 1 = Inr 3"
    by (simp add: number_of_nodes_def requested_edges_def py_int_times_float_def
        complete_graph_number_of_edges_def float64_round_numeral py_int_def)
  then have "applycost_to_g ?G 1 = Inl IndexError"
    by (simp add: applycost_to_g_def Let_def edges_iter_def get_weight_def py_index_def)
  with k show ?thesis by simp
qed

text \<open>
  Claim C7, amended. For every well-formed weighted graph \<open>G\<close> and cost such that the
  requested edge-keep count exceeds the number of available edge weights,
  \<open>applycost_to_g G cost\<close> fails with \<^verbatim>\<open>IndexError\<close>; no graph is returned and nothing is
  recovered.
\<close>

theorem applycost_to_g_index_error:
  assumes "wf_graph G"
    and "requested_edges (number_of_nodes G) cost = Inr n_edges_keep"
    and "int (length (edges G)) < n_edges_keep"
  shows "applycost_to_g G cost = Inl IndexError"
proof -
  from assms(3) have "int (length (edges G)) \<le> n_edges_keep + 1"
    by simp
  with assms(1,2) show ?thesis
    by (rule applycost_to_g_index_beyond)
qed

theorem applycost_to_g_index_error_witness:
  "wf_graph \<lparr>nodes = [0, 1, 2, 3 :: nat], edges = [((0, 1), 2 :: int), ((2, 3), 1)]\<rparr> \<and>
   requested_edges
     (number_of_nodes \<lparr>nodes = [0, 1, 2, 3 :: nat], edges = [((0, 1), 2 :: int), ((2, 3), 1)]\<rparr>)
     (1 / 2) = Inr 3 \<and>
   applycost_to_g \<lparr>nodes = [0, 1, 2, 3 :: nat], edges = [((0, 1), 2 :: int), ((2, 3), 1)]\<rparr> (1 / 2) =
     Inl IndexError"
proof -
  let ?G = "\<lparr>nodes = [0, 1, 2, 3 :: nat], edges = [((0, 1), 2 :: int), ((2, 3), 1)]\<rparr>"
  have wf: "wf_graph ?G"
    by (simp add: wf_graph_def)
  have k: "requested_edges (number_of_nodes ?G) (1 / 2) = Inr 3"
    by (simp add: number_of_nodes_def requested_edges_def py_int_times_float_def
        complete_graph_number_of_edges_def float64_round_numeral py_int_def)
  have "int (length (edges ?G)) < 3"
    by simp
  from applycost_to_g_index_error [OF wf k this] wf k show ?thesis
    by simp
qed

text \<open>
  Claim C3 at a concrete graph. On the triangle with weights 3, 2 and 1 the call with
  cost 1 raises \<^verbatim>\<open>IndexError\<close> (index 4 of three weights), and the call with cost 0
  takes the second largest weight as threshold and keeps two edges.
\<close>

theorem applycost_to_g_extreme_costs:
  "applycost_to_g \<lparr>nodes = [0, 1, 2 :: nat],
                   edges = [((0, 1), 3 :: int), ((0, 2), 2), ((1, 2), 1)]\<rparr> 1 = Inl IndexError \<and>
   applycost_to_g \<lparr>nodes = [0, 1, 2 :: nat],
                   edges = [((0, 1), 3 :: int), ((0, 2), 2), ((1, 2), 1)]\<rparr> 0 =
     Inr \<lparr>nodes = [0, 1, 2], edges = [((0, 1), 3), ((0, 2), 2)]\<rparr>"
  by (simp add: applycost_to_g_def Let_def number_of_nodes_def requested_edges_def
      py_int_times_float_def complete_graph_number_of_edges_def float64_round_numeral
      float64_round_zero py_int_def edges_iter_def get_weight_def py_index_def
      remove_edges_from_def)

text \<open>
  What \<open>remove_edges_by_weight\<close> computes on every well-formed graph: the edges below the
  floor go, and the nodes that go are those of degree below 2 in the input graph \<open>G\<close>,
  whatever their degree after the edges were removed.
\<close>

lemma no_dup_edges_filter: "no_dup_edges es \<Longrightarrow> no_dup_edges (filter P es)"
  by (induction es) (auto simp: list_all_iff)

lemma no_dup_edges_distinct: "no_dup_edges es \<Longrightarrow> distinct es"
  by (induction es) (auto simp: list_all_iff same_edge_refl)

lemma remove_edge_own:
  assumes "no_dup_edges (edges G)" "e \<in> set (edges G)"
  shows "remove_edge G (fst (fst e)) (snd (fst e)) = Inr (G\<lparr>edges := filter (\<lambda>e'. e' \<noteq> e) (edges G)\<rparr>)"
proof -
  have same: "same_edge (fst e') (fst e) \<longleftrightarrow> e' = e" if "e' \<in> set (edges G)" for e'
  proof
    assume "same_edge (fst e') (fst e)"
    then show "e' = e" by (rule no_dup_edges_unique [OF assms(1) that assms(2)])
  next
    assume "e' = e"
    then show "same_edge (fst e') (fst e)" by (simp add: same_edge_refl)
  qed
  then have "filter (\<lambda>e'. \<not> same_edge (fst e') (fst e)) (edges G) = filter (\<lambda>e'. e' \<noteq> e) (edges G)"
    by (intro filter_cong) auto
  moreover have "list_ex (\<lambda>e'. same_edge (fst e') (fst e)) (edges G)"
    unfolding list_ex_iff using assms(2) same_edge_refl by blast
  ultimately show ?thesis
    by (simp add: remove_edge_def)
qed

lemma prune_edges_result:
  assumes "no_dup_edges (edges Gr)" "set es \<subseteq> set (edges Gr)" "distinct es"
  shows "prune_edges mw (map fst es) Gr =
           Inr (Gr\<lparr>edges := filter (\<lambda>e. \<not> (e \<in> set es \<and> snd e < mw)) (edges Gr)\<rparr>)"
  using assms
proof (induction es arbitrary: Gr)
  case Nil
  then show ?case by simp
next
  case (Cons e es)
  then have e: "e \<in> set (edges Gr)" by simp
  have w: "get_weight Gr (fst (fst e)) (snd (fst e)) = Inr (snd e)"
    using get_weight_own_edge [OF Cons.prems(1) e] .
  show ?case
  proof (cases "snd e < mw")
    case True
    let ?G' = "Gr\<lparr>edges := filter (\<lambda>e'. e' \<noteq> e) (edges Gr)\<rparr>"
    have r: "remove_edge Gr (fst (fst e)) (snd (fst e)) = Inr ?G'"
      using remove_edge_own [OF Cons.prems(1) e] .
    have "prune_edges mw (map fst es) ?G' =
           Inr (?G'\<lparr>edges := filter (\<lambda>x. \<not> (x \<in> set es \<and> snd x < mw)) (edges ?G')\<rparr>)"
      using Cons.prems by (intro Cons.IH) (auto simp: no_dup_edges_filter)
    also have "filter (\<lambda>x. \<not> (x \<in> set es \<and> snd x < mw)) (edges ?G') =
               filter (\<lambda>x. \<not> (x \<in> set (e # es) \<and> snd x < mw)) (edges Gr)"
      using True by (auto intro: filter_cong)
    finally show ?thesis
      using w r True by (cases e, cases "fst e") simp
  next
    case False
    have "prune_edges mw (map fst es) Gr =
           Inr (Gr\<lparr>edges := filter (\<lambda>x. \<not> (x \<in> set es \<and> snd x < mw)) (edges Gr)\<rparr>)"
      using Cons.prems by (intro Cons.IH) auto
    also have "filter (\<lambda>x. \<not> (x \<in> set es \<and> snd x < mw)) (edges Gr) =
               filter (\<lambda>x. \<not> (x \<in> set (e # es) \<and> snd x < mw)) (edges Gr)"
      using False by (auto intro: filter_cong)
    finally show ?thesis
      using w False by (cases e, cases "fst e") simp
  qed
qed

lemma prune_nodes_result:
  assumes "set ns \<subseteq> set (nodes Gr)" "distinct ns"
  shows "prune_nodes (map (\<lambda>n. (n, deg n)) ns) Gr =
           Inr (Gr\<lparr>nodes := filter (\<lambda>m. \<not> (m \<in> set ns \<and> deg m < 2)) (nodes Gr),
                    edges := filter (\<lambda>e. \<not> (fst (fst e) \<in> set ns \<and> deg (fst (fst e)) < 2) \<and>
                                         \<not> (snd (fst e) \<in> set ns \<and> deg (snd (fst e)) < 2))
                               (edges Gr)\<rparr>)"
  using assms
proof (induction ns arbitrary: Gr)
  case Nil
  then show ?case by simp
next
  case (Cons n ns)
  show ?case
  proof (cases "deg n < 2")
    case True
    let ?G' = "Gr\<lparr>nodes := filter (\<lambda>m. m \<noteq> n) (nodes Gr),
                  edges := filter (\<lambda>e. fst (fst e) \<noteq> n \<and> snd (fst e) \<noteq> n) (edges Gr)\<rparr>"
    have r: "remove_node Gr n = Inr ?G'"
      using Cons.prems by (simp add: remove_node_def)
    have ih: "prune_nodes (map (\<lambda>n. (n, deg n)) ns) ?G' =
           Inr (?G'\<lparr>nodes := filter (\<lambda>m. \<not> (m \<in> set ns \<and> deg m < 2)) (nodes ?G'),
                    edges := filter (\<lambda>e. \<not> (fst (fst e) \<in> set ns \<and> deg (fst (fst e)) < 2) \<and>
                                         \<not> (snd (fst e) \<in> set ns \<and> deg (snd (fst e)) < 2))
                               (edges ?G')\<rparr>)"
      using Cons.prems by (intro Cons.IH) auto
    have n1: "filter (\<lambda>m. \<not> (m \<in> set ns \<and> deg m < 2)) (nodes ?G') =
              filter (\<lambda>m. \<not> (m \<in> set (n # ns) \<and> deg m < 2)) (nodes Gr)"
      using True by (auto intro: filter_cong)
    have e1: "filter (\<lambda>e. \<not> (fst (fst e) \<in> set ns \<and> deg (fst (fst e)) < 2) \<and>
                                         \<not> (snd (fst e) \<in> set ns \<and> deg (snd (fst e)) < 2))
                               (edges ?G') =
              filter (\<lambda>e. \<not> (fst (fst e) \<in> set (n # ns) \<and> deg (fst (fst e)) < 2) \<and>
                                         \<not> (snd (fst e) \<in> set (n # ns) \<and> deg (snd (fst e)) < 2))
                               (edges Gr)"
      using True by (auto intro: filter_cong)
    show ?thesis
      using True r ih unfolding n1 e1 by simp
  next
    case False
    have ih: "prune_nodes (map (\<lambda>n. (n, deg n)) ns) Gr =
           Inr (Gr\<lparr>nodes := filter (\<lambda>m. \<not> (m \<in> set ns \<and> deg m < 2)) (nodes Gr),
                    edges := filter (\<lambda>e. \<not> (fst (fst e) \<in> set ns \<and> deg (fst (fst e)) < 2) \<and>
                                         \<not> (snd (fst e) \<in> set ns \<and> deg (snd (fst e)) < 2))
                               (edges Gr)\<rparr>)"
      using Cons.prems by (intro Cons.IH) auto
    have n1: "filter (\<lambda>m. \<not> (m \<in> set ns \<and> deg m < 2)) (nodes Gr) =
              filter (\<lambda>m. \<not> (m \<in> set (n # ns) \<and> deg m < 2)) (nodes Gr)"
      using False by (auto intro: filter_cong)
    have e1: "filter (\<lambda>e. \<not> (fst (fst e) \<in> set ns \<and> deg (fst (fst e)) < 2) \<and>
                                         \<not> (snd (fst e) \<in> set ns \<and> deg (snd (fst e)) < 2))
                               (edges Gr) =
              filter (\<lambda>e. \<not> (fst (fst e) \<in> set (n # ns) \<and> deg (fst (fst e)) < 2) \<and>
                                         \<not> (snd (fst e) \<in> set (n # ns) \<and> deg (snd (fst e)) < 2))
                               (edges Gr)"
      using False by (auto intro: filter_cong)
    show ?thesis
      using False ih unfolding n1 e1 by simp
  qed
qed

lemma remove_edges_by_weight_result:
  assumes "wf_graph G"
  shows "remove_edges_by_weight G mw =
           Inr (G\<lparr>nodes := filter (\<lambda>n. 2 \<le> degree G n) (nodes G),
                   edges := filter (\<lambda>e. \<not> snd e < mw \<and> 2 \<le> degree G (fst (fst e)) \<and>
                                        2 \<le> degree G (snd (fst e))) (edges G)\<rparr>)"
proof -
  from assms have nd: "no_dup_edges (edges G)" and dn: "distinct (nodes G)"
    and ends: "\<forall>e\<in>set (edges G). fst (fst e) \<in> set (nodes G) \<and> snd (fst e) \<in> set (nodes G)"
    by (simp_all add: wf_graph_def list_all_iff)
  let ?G1 = "G\<lparr>edges := filter (\<lambda>e. \<not> snd e < mw) (edges G)\<rparr>"
  have "prune_edges mw (map fst (edges G)) G =
          Inr (G\<lparr>edges := filter (\<lambda>e. \<not> (e \<in> set (edges G) \<and> snd e < mw)) (edges G)\<rparr>)"
    using nd by (intro prune_edges_result) (simp_all add: no_dup_edges_distinct)
  also have "filter (\<lambda>e. \<not> (e \<in> set (edges G) \<and> snd e < mw)) (edges G) =
             filter (\<lambda>e. \<not> snd e < mw) (edges G)"
    by (auto intro: filter_cong)
  finally have one: "prune_edges mw (edges_iter G) G = Inr ?G1"
    by (simp add: edges_iter_def)
  have "prune_nodes (map (\<lambda>n. (n, degree G n)) (nodes G)) ?G1 =
          Inr (?G1\<lparr>nodes := filter (\<lambda>m. \<not> (m \<in> set (nodes G) \<and> degree G m < 2)) (nodes ?G1),
                    edges := filter (\<lambda>e. \<not> (fst (fst e) \<in> set (nodes G) \<and> degree G (fst (fst e)) < 2) \<and>
                                         \<not> (snd (fst e) \<in> set (nodes G) \<and> degree G (snd (fst e)) < 2))
                               (edges ?G1)\<rparr>)"
    using dn by (intro prune_nodes_result) simp_all
  moreover have "filter (\<lambda>m. \<not> (m \<in> set (nodes G) \<and> degree G m < 2)) (nodes ?G1) =
                 filter (\<lambda>n. 2 \<le> degree G n) (nodes G)"
    by (auto intro: filter_cong)
  moreover have "filter (\<lambda>e. \<not> (fst (fst e) \<in> set (nodes G) \<and> degree G (fst (fst e)) < 2) \<and>
                                         \<not> (snd (fst e) \<in> set (nodes G) \<and> degree G (snd (fst e)) < 2))
                               (edges ?G1) =
                 filter (\<lambda>e. \<not> snd e < mw \<and> 2 \<le> degree G (fst (fst e)) \<and>
                                        2 \<le> degree G (snd (fst e))) (edges G)"
    using ends by (auto intro: filter_cong)
  ultimately have two: "prune_nodes (degree_iter G) ?G1 =
      Inr (G\<lparr>nodes := filter (\<lambda>n. 2 \<le> degree G n) (nodes G),
                   edges := filter (\<lambda>e. \<not> snd e < mw \<and> 2 \<le> degree G (fst (fst e)) \<and>
                                        2 \<le> degree G (snd (fst e))) (edges G)\<rparr>)"
    by (simp add: degree_iter_def)
  show ?thesis
    unfolding remove_edges_by_weight_def Let_def one using two by simp
qed

text \<open>
  Claim C4 at a concrete graph. On the triangle with weights 1, 1 and 5 and the floor 3,
  the two light edges go; node 0 is then isolated and nodes 1 and 2 are leaves, but the
  second loop reads the degrees of the input graph (all 2), so no node is removed.
\<close>

theorem remove_edges_by_weight_keeps_isolated_node:
  "remove_edges_by_weight
     \<lparr>nodes = [0, 1, 2 :: nat], edges = [((0, 1), 1 :: int), ((0, 2), 1), ((1, 2), 5)]\<rparr> 3 =
     Inr \<lparr>nodes = [0, 1, 2], edges = [((1, 2), 5)]\<rparr> \<and>
   degree \<lparr>nodes = [0, 1, 2 :: nat], edges = [((1, 2), 5 :: int)]\<rparr> 0 = 0 \<and>
   degree \<lparr>nodes = [0, 1, 2 :: nat], edges = [((1, 2), 5 :: int)]\<rparr> 1 = 1"
  by (simp add: remove_edges_by_weight_def Let_def edges_iter_def degree_iter_def degree_def
      get_weight_def remove_edge_def)

subsection \<open>Facts about the significance filter\<close>

text \<open>
  The two loops visit every cell once. The body at \<open>(x, y)\<close> reads the cells \<open>(x, x)\<close>,
  \<open>(x, y)\<close> and \<open>(y, y)\<close> and writes \<open>(x, y)\<close> only, and never a diagonal cell; so the cells
  it reads still hold the input's values when it runs. This holds whatever the float64
  operations compute.
\<close>

lemma mat_get_square:
  "square A \<Longrightarrow> x < length A \<Longrightarrow> y < length A \<Longrightarrow> mat_get A x y = Inr (A ! x ! y)"
  by (simp add: mat_get_def square_nth)

lemma square_iff_nth: "square A \<longleftrightarrow> (\<forall>i<length A. length (A ! i) = length A)"
  by (simp add: square_def all_set_conv_all_nth)

lemma square_mat_set:
  assumes "square A"
  shows "square (mat_set A x y v)"
proof (cases "x < length A")
  case True
  with assms show ?thesis
    by (auto simp: square_iff_nth mat_set_def nth_list_update)
next
  case False
  with assms show ?thesis
    by (simp add: mat_set_def list_update_beyond)
qed

lemma length_mat_set: "length (mat_set A x y v) = length A"
  by (simp add: mat_set_def)

lemma mat_set_nth:
  "square A \<Longrightarrow> r < length A \<Longrightarrow> c < length A \<Longrightarrow>
     mat_set A x y v ! r ! c = (if r = x \<and> c = y then v else A ! r ! c)"
  by (cases "r = x") (simp_all add: mat_set_def nth_list_update square_nth)

lemma sct_body_square:
  assumes "square A" "x < length A" "y < length A"
  shows "sct_body ops N t x y A =
     (if x = y then Inr A
      else case p_value ops N (A ! x ! x) (A ! x ! y) (A ! y ! y) of
             Inl e \<Rightarrow> Inl e
           | Inr v \<Rightarrow> Inr (if np_gt v (Finite t) then mat_set A x y 0 else A))"
  using assms by (simp add: sct_body_def mat_get_square split: sum.splits)

lemma sct_body_result:
  assumes "square A" "x < length A" "y < length A" "sct_body ops N t x y A = Inr A'"
  shows "square A' \<and> length A' = length A \<and>
         (\<forall>r<length A. \<forall>c<length A.
            A' ! r ! c = (if r = x \<and> c = y \<and> c \<noteq> x \<and>
                             zeroed ops N t (A ! x ! x) (A ! x ! c) (A ! c ! c)
                          then 0 else A ! r ! c))"
proof (cases "x = y")
  case True
  with assms show ?thesis by (simp add: sct_body_square)
next
  case False
  from assms(4) obtain v where v: "p_value ops N (A ! x ! x) (A ! x ! y) (A ! y ! y) = Inr v"
    and A': "A' = (if np_gt v (Finite t) then mat_set A x y 0 else A)"
    using False by (auto simp: sct_body_square [OF assms(1-3)] split: sum.splits)
  have z: "zeroed ops N t (A ! x ! x) (A ! x ! y) (A ! y ! y) = np_gt v (Finite t)"
    by (simp add: zeroed_def v)
  show ?thesis
    using False assms(1)
    by (auto simp: A' z square_mat_set length_mat_set mat_set_nth)
qed

lemma sct_body_error:
  assumes "square A" "x < length A" "y < length A"
  shows "(\<exists>A'. sct_body ops N t x y A = Inr A') \<longleftrightarrow>
         (x = y \<or> (\<exists>v. p_value ops N (A ! x ! x) (A ! x ! y) (A ! y ! y) = Inr v))"
  by (auto simp: sct_body_square [OF assms] split: sum.splits)

lemma sct_inner_result:
  assumes "sct_inner ops N t x ys A = Inr A'" "square A" "x < length A"
    "\<forall>y\<in>set ys. y < length A" "distinct ys"
  shows "square A' \<and> length A' = length A \<and>
         (\<forall>r<length A. \<forall>c<length A.
            A' ! r ! c = (if r = x \<and> c \<in> set ys \<and> c \<noteq> x \<and>
                             zeroed ops N t (A ! x ! x) (A ! x ! c) (A ! c ! c)
                          then 0 else A ! r ! c))"
  using assms
proof (induction ys arbitrary: A)
  case Nil
  then show ?case by simp
next
  case (Cons y ys)
  from Cons.prems(1) obtain A1 where b: "sct_body ops N t x y A = Inr A1"
    and rest: "sct_inner ops N t x ys A1 = Inr A'"
    by (auto split: sum.splits)
  from Cons.prems have y: "y < length A" by simp
  note r1 = sct_body_result [OF Cons.prems(2,3) y b]
  then have sq1: "square A1" and len1: "length A1 = length A" by simp_all
  have ih: "square A' \<and> length A' = length A1 \<and>
         (\<forall>r<length A1. \<forall>c<length A1.
            A' ! r ! c = (if r = x \<and> c \<in> set ys \<and> c \<noteq> x \<and>
                             zeroed ops N t (A1 ! x ! x) (A1 ! x ! c) (A1 ! c ! c)
                          then 0 else A1 ! r ! c))"
    using Cons.prems by (intro Cons.IH [OF rest sq1]) (simp_all add: len1)
  have keep: "A1 ! x ! x = A ! x ! x"
    using r1 Cons.prems(3) by simp
  have diag: "A1 ! c ! c = A ! c ! c" if "c < length A" for c
    using r1 that by simp
  have other: "A1 ! x ! c = A ! x ! c" if "c < length A" "c \<in> set ys" for c
    using r1 that Cons.prems(3,5) by auto
  show ?case
  proof (intro conjI allI impI)
    show "square A'" using ih by simp
    show "length A' = length A" using ih len1 by simp
  next
    fix r c assume rc: "r < length A" "c < length A"
    then have "A' ! r ! c = (if r = x \<and> c \<in> set ys \<and> c \<noteq> x \<and>
                             zeroed ops N t (A1 ! x ! x) (A1 ! x ! c) (A1 ! c ! c)
                          then 0 else A1 ! r ! c)"
      using ih len1 by simp
    also have "\<dots> = (if r = x \<and> c \<in> set (y # ys) \<and> c \<noteq> x \<and>
                             zeroed ops N t (A ! x ! x) (A ! x ! c) (A ! c ! c)
                          then 0 else A ! r ! c)"
      using r1 rc keep diag [OF rc(2)] other [OF rc(2)] by auto
    finally show "A' ! r ! c = (if r = x \<and> c \<in> set (y # ys) \<and> c \<noteq> x \<and>
                             zeroed ops N t (A ! x ! x) (A ! x ! c) (A ! c ! c)
                          then 0 else A ! r ! c)" .
  qed
qed

lemma sct_inner_returns:
  assumes "square A" "x < length A" "\<forall>y\<in>set ys. y < length A" "distinct ys"
    "\<forall>y\<in>set ys. y \<noteq> x \<longrightarrow> (\<exists>v. p_value ops N (A ! x ! x) (A ! x ! y) (A ! y ! y) = Inr v)"
  shows "\<exists>A'. sct_inner ops N t x ys A = Inr A'"
  using assms
proof (induction ys arbitrary: A)
  case Nil
  then show ?case by simp
next
  case (Cons y ys)
  from Cons.prems have y: "y < length A" by simp
  from Cons.prems(5) have "y = x \<or> (\<exists>v. p_value ops N (A ! x ! x) (A ! x ! y) (A ! y ! y) = Inr v)"
    by auto
  then obtain A1 where b: "sct_body ops N t x y A = Inr A1"
    using sct_body_error [OF Cons.prems(1,2) y, of ops N t] by blast
  note r1 = sct_body_result [OF Cons.prems(1,2) y b]
  then have sq1: "square A1" and len1: "length A1 = length A" by simp_all
  have same: "A1 ! x ! x = A ! x ! x \<and> A1 ! x ! c = A ! x ! c \<and> A1 ! c ! c = A ! c ! c"
    if "c \<in> set ys" for c
  proof -
    from that Cons.prems(3,4) have "c < length A" "c \<noteq> y" by auto
    with r1 Cons.prems(2) show ?thesis by simp
  qed
  have "\<exists>A'. sct_inner ops N t x ys A1 = Inr A'"
  proof (rule Cons.IH [OF sq1])
    show "x < length A1" using Cons.prems(2) len1 by simp
    show "\<forall>y\<in>set ys. y < length A1" using Cons.prems(3) len1 by simp
    show "distinct ys" using Cons.prems(4) by simp
    show "\<forall>y\<in>set ys. y \<noteq> x \<longrightarrow>
            (\<exists>v. p_value ops N (A1 ! x ! x) (A1 ! x ! y) (A1 ! y ! y) = Inr v)"
      using Cons.prems(5) same by simp
  qed
  with b show ?case by simp
qed

lemma sct_outer_result:
  assumes "sct_outer ops N t n xs A = Inr A'" "square A" "length A = n"
    "\<forall>x\<in>set xs. x < n" "distinct xs"
  shows "square A' \<and> length A' = n \<and>
         (\<forall>r<n. \<forall>c<n.
            A' ! r ! c = (if r \<in> set xs \<and> c \<noteq> r \<and>
                             zeroed ops N t (A ! r ! r) (A ! r ! c) (A ! c ! c)
                          then 0 else A ! r ! c))"
  using assms
proof (induction xs arbitrary: A)
  case Nil
  then show ?case by simp
next
  case (Cons x xs)
  from Cons.prems(1) obtain A1 where i: "sct_inner ops N t x [0..<n] A = Inr A1"
    and rest: "sct_outer ops N t n xs A1 = Inr A'"
    by (auto split: sum.splits)
  from Cons.prems have x: "x < length A" by simp
  have r1: "square A1 \<and> length A1 = length A \<and>
         (\<forall>r<length A. \<forall>c<length A.
            A1 ! r ! c = (if r = x \<and> c \<in> set [0..<n] \<and> c \<noteq> x \<and>
                             zeroed ops N t (A ! x ! x) (A ! x ! c) (A ! c ! c)
                          then 0 else A ! r ! c))"
    using Cons.prems(3) by (intro sct_inner_result [OF i Cons.prems(2) x]) simp_all
  then have sq1: "square A1" and len1: "length A1 = n"
    using Cons.prems(3) by simp_all
  have ih: "square A' \<and> length A' = n \<and>
         (\<forall>r<n. \<forall>c<n.
            A' ! r ! c = (if r \<in> set xs \<and> c \<noteq> r \<and>
                             zeroed ops N t (A1 ! r ! r) (A1 ! r ! c) (A1 ! c ! c)
                          then 0 else A1 ! r ! c))"
    using Cons.prems by (intro Cons.IH [OF rest sq1 len1]) simp_all
  have diag: "A1 ! c ! c = A ! c ! c" if "c < n" for c
    using r1 that Cons.prems(3) by simp
  have other: "A1 ! r ! c = A ! r ! c" if "r < n" "c < n" "r \<in> set xs" for r c
    using r1 that Cons.prems(3,5) by auto
  show ?case
  proof (intro conjI allI impI)
    show "square A'" using ih by simp
    show "length A' = n" using ih by simp
  next
    fix r c assume rc: "r < n" "c < n"
    then have "A' ! r ! c = (if r \<in> set xs \<and> c \<noteq> r \<and>
                             zeroed ops N t (A1 ! r ! r) (A1 ! r ! c) (A1 ! c ! c)
                          then 0 else A1 ! r ! c)"
      using ih by simp
    also have "\<dots> = (if r \<in> set (x # xs) \<and> c \<noteq> r \<and>
                             zeroed ops N t (A ! r ! r) (A ! r ! c) (A ! c ! c)
                          then 0 else A ! r ! c)"
      using r1 rc Cons.prems(3) diag [OF rc(1)] diag [OF rc(2)] other [OF rc] by auto
    finally show "A' ! r ! c = (if r \<in> set (x # xs) \<and> c \<noteq> r \<and>
                             zeroed ops N t (A ! r ! r) (A ! r ! c) (A ! c ! c)
                          then 0 else A ! r ! c)" .
  qed
qed

lemma sct_outer_returns:
  assumes "square A" "length A = n" "\<forall>x\<in>set xs. x < n" "distinct xs"
    "\<forall>x\<in>set xs. \<forall>y<n. y \<noteq> x \<longrightarrow>
       (\<exists>v. p_value ops N (A ! x ! x) (A ! x ! y) (A ! y ! y) = Inr v)"
  shows "\<exists>A'. sct_outer ops N t n xs A = Inr A'"
  using assms
proof (induction xs arbitrary: A)
  case Nil
  then show ?case by simp
next
  case (Cons x xs)
  from Cons.prems have x: "x < length A" by simp
  have "\<exists>A1. sct_inner ops N t x [0..<n] A = Inr A1"
    using Cons.prems by (intro sct_inner_returns [OF Cons.prems(1) x]) simp_all
  then obtain A1 where i: "sct_inner ops N t x [0..<n] A = Inr A1" ..
  have r1: "square A1 \<and> length A1 = length A \<and>
         (\<forall>r<length A. \<forall>c<length A.
            A1 ! r ! c = (if r = x \<and> c \<in> set [0..<n] \<and> c \<noteq> x \<and>
                             zeroed ops N t (A ! x ! x) (A ! x ! c) (A ! c ! c)
                          then 0 else A ! r ! c))"
    using Cons.prems(2) by (intro sct_inner_result [OF i Cons.prems(1) x]) simp_all
  then have sq1: "square A1" and len1: "length A1 = n"
    using Cons.prems(2) by simp_all
  have diag: "A1 ! c ! c = A ! c ! c" if "c < n" for c
    using r1 that Cons.prems(2) by simp
  have other: "A1 ! r ! c = A ! r ! c" if "r < n" "c < n" "r \<in> set xs" for r c
    using r1 that Cons.prems(2,4) by auto
  have "\<exists>A'. sct_outer ops N t n xs A1 = Inr A'"
  proof (rule Cons.IH [OF sq1 len1])
    show "\<forall>x\<in>set xs. x < n" using Cons.prems(3) by simp
    show "distinct xs" using Cons.prems(4) by simp
    show "\<forall>x\<in>set xs. \<forall>y<n. y \<noteq> x \<longrightarrow>
            (\<exists>v. p_value ops N (A1 ! x ! x) (A1 ! x ! y) (A1 ! y ! y) = Inr v)"
    proof (intro ballI allI impI)
      fix r y assume a: "r \<in> set xs" "y < n" "y \<noteq> r"
      with Cons.prems(3) have rn: "r < n" by simp
      from a Cons.prems(5)
      have "\<exists>v. p_value ops N (A ! r ! r) (A ! r ! y) (A ! y ! y) = Inr v" by simp
      then show "\<exists>v. p_value ops N (A1 ! r ! r) (A1 ! r ! y) (A1 ! y ! y) = Inr v"
        using diag [OF rn] diag [OF a(2)] other [OF rn a(2) a(1)] by simp
    qed
  qed
  with i show ?case by simp
qed

lemma sct_entries:
  assumes "square C" and "significant_connection_threshold ops C N t = Inr M"
  shows "square M \<and> length M = length C \<and>
         (\<forall>r<length C. \<forall>c<length C.
            M ! r ! c = (if c \<noteq> r \<and> zeroed ops N t (C ! r ! r) (C ! r ! c) (C ! c ! c)
                         then 0 else C ! r ! c))"
proof -
  from assms(2) have "sct_outer ops N t (length C) [0..<length C] C = Inr M"
    by (simp add: significant_connection_threshold_def Let_def)
  from sct_outer_result [OF this assms(1)] show ?thesis
    by simp
qed

lemma sct_returns:
  assumes "square C"
    and "\<forall>x<length C. \<forall>y<length C. y \<noteq> x \<longrightarrow>
          (\<exists>v. p_value ops N (C ! x ! x) (C ! x ! y) (C ! y ! y) = Inr v)"
  shows "\<exists>M. significant_connection_threshold ops C N t = Inr M"
  unfolding significant_connection_threshold_def Let_def
  using assms(2) by (intro sct_outer_returns [OF assms(1)]) simp_all

lemma sct_inner_defined:
  assumes "sct_inner ops N t x ys A = Inr A'" "square A" "x < length A"
    "\<forall>y\<in>set ys. y < length A" "distinct ys"
  shows "\<forall>y\<in>set ys. y \<noteq> x \<longrightarrow>
           (\<exists>v. p_value ops N (A ! x ! x) (A ! x ! y) (A ! y ! y) = Inr v)"
  using assms
proof (induction ys arbitrary: A)
  case Nil
  then show ?case by simp
next
  case (Cons y ys)
  from Cons.prems(1) obtain A1 where b: "sct_body ops N t x y A = Inr A1"
    and rest: "sct_inner ops N t x ys A1 = Inr A'"
    by (auto split: sum.splits)
  from Cons.prems have y: "y < length A" by simp
  have head: "y \<noteq> x \<longrightarrow> (\<exists>v. p_value ops N (A ! x ! x) (A ! x ! y) (A ! y ! y) = Inr v)"
    using sct_body_error [OF Cons.prems(2,3) y, of ops N t] b by auto
  note r1 = sct_body_result [OF Cons.prems(2,3) y b]
  then have sq1: "square A1" and len1: "length A1 = length A" by simp_all
  have ih: "\<forall>c\<in>set ys. c \<noteq> x \<longrightarrow>
           (\<exists>v. p_value ops N (A1 ! x ! x) (A1 ! x ! c) (A1 ! c ! c) = Inr v)"
    using Cons.prems by (intro Cons.IH [OF rest sq1]) (simp_all add: len1)
  have same: "A1 ! x ! x = A ! x ! x \<and> A1 ! x ! c = A ! x ! c \<and> A1 ! c ! c = A ! c ! c"
    if "c \<in> set ys" for c
  proof -
    from that Cons.prems(4,5) have "c < length A" "c \<noteq> y" by auto
    with r1 Cons.prems(3) show ?thesis by simp
  qed
  show ?case
  proof (intro ballI impI)
    fix c assume c: "c \<in> set (y # ys)" "c \<noteq> x"
    show "\<exists>v. p_value ops N (A ! x ! x) (A ! x ! c) (A ! c ! c) = Inr v"
    proof (cases "c = y")
      case True
      with head c(2) show ?thesis by simp
    next
      case False
      with c(1) have cys: "c \<in> set ys" by simp
      with ih c(2) have "\<exists>v. p_value ops N (A1 ! x ! x) (A1 ! x ! c) (A1 ! c ! c) = Inr v"
        by simp
      with same [OF cys] show ?thesis by simp
    qed
  qed
qed

lemma sct_outer_defined:
  assumes "sct_outer ops N t n xs A = Inr A'" "square A" "length A = n"
    "\<forall>x\<in>set xs. x < n" "distinct xs"
  shows "\<forall>x\<in>set xs. \<forall>y<n. y \<noteq> x \<longrightarrow>
           (\<exists>v. p_value ops N (A ! x ! x) (A ! x ! y) (A ! y ! y) = Inr v)"
  using assms
proof (induction xs arbitrary: A)
  case Nil
  then show ?case by simp
next
  case (Cons x xs)
  from Cons.prems(1) obtain A1 where i: "sct_inner ops N t x [0..<n] A = Inr A1"
    and rest: "sct_outer ops N t n xs A1 = Inr A'"
    by (auto split: sum.splits)
  from Cons.prems have x: "x < length A" by simp
  have head: "\<forall>y\<in>set [0..<n]. y \<noteq> x \<longrightarrow>
           (\<exists>v. p_value ops N (A ! x ! x) (A ! x ! y) (A ! y ! y) = Inr v)"
    using Cons.prems(3) by (intro sct_inner_defined [OF i Cons.prems(2) x]) simp_all
  have r1: "square A1 \<and> length A1 = length A \<and>
         (\<forall>r<length A. \<forall>c<length A.
            A1 ! r ! c = (if r = x \<and> c \<in> set [0..<n] \<and> c \<noteq> x \<and>
                             zeroed ops N t (A ! x ! x) (A ! x ! c) (A ! c ! c)
                          then 0 else A ! r ! c))"
    using Cons.prems(3) by (intro sct_inner_result [OF i Cons.prems(2) x]) simp_all
  then have sq1: "square A1" and len1: "length A1 = n"
    using Cons.prems(3) by simp_all
  have ih: "\<forall>r\<in>set xs. \<forall>y<n. y \<noteq> r \<longrightarrow>
           (\<exists>v. p_value ops N (A1 ! r ! r) (A1 ! r ! y) (A1 ! y ! y) = Inr v)"
    using Cons.prems by (intro Cons.IH [OF rest sq1 len1]) simp_all
  have diag: "A1 ! c ! c = A ! c ! c" if "c < n" for c
    using r1 that Cons.prems(3) by simp
  have other: "A1 ! r ! c = A ! r ! c" if "r < n" "c < n" "r \<in> set xs" for r c
    using r1 that Cons.prems(3,5) by auto
  show ?case
  proof (intro ballI allI impI)
    fix r y assume a: "r \<in> set (x # xs)" "y < n" "y \<noteq> r"
    show "\<exists>v. p_value ops N (A ! r ! r) (A ! r ! y) (A ! y ! y) = Inr v"
    proof (cases "r = x")
      case True
      with head a show ?thesis by simp
    next
      case False
      with a(1) have rxs: "r \<in> set xs" by simp
      with Cons.prems(4) have rn: "r < n" by simp
      from ih rxs a have "\<exists>v. p_value ops N (A1 ! r ! r) (A1 ! r ! y) (A1 ! y ! y) = Inr v"
        by simp
      then show ?thesis
        using diag [OF rn] diag [OF a(2)] other [OF rn a(2) rxs] by simp
    qed
  qed
qed

lemma sct_defined:
  assumes "square C" and "significant_connection_threshold ops C N t = Inr M"
    and "x < length C" and "y < length C" and "y \<noteq> x"
  shows "\<exists>v. p_value ops N (C ! x ! x) (C ! x ! y) (C ! y ! y) = Inr v"
proof -
  from assms(2) have "sct_outer ops N t (length C) [0..<length C] C = Inr M"
    by (simp add: significant_connection_threshold_def Let_def)
  from sct_outer_defined [OF this assms(1)] assms(3-5) show ?thesis
    by simp
qed

text \<open>
  The filter run with \<open>float64_ops\<close> on small matrices. The values that occur are \<open>0\<close>,
  \<open>1/4\<close>, \<open>1/2\<close> and \<open>1\<close>, which float64 represents, and NaN.
\<close>

lemma float64_round_half: "float64_round (1 / 2) = Finite (1 / 2)"
  by (rule float64_round_eval [where p = "- 1"])
    (simp_all add: powr_add powr_minus round_half_even_def)

lemma float64_round_quarter: "float64_round (1 / 4) = Finite (1 / 4)"
  by (rule float64_round_eval [where p = "- 2"])
    (simp_all add: powr_add powr_minus round_half_even_def)

lemma float64_round_one: "float64_round 1 = Finite 1"
  using float64_round_int [of 1] by simp

lemma f64_div_nan: "f64_div a NaN = NaN"
  by (cases a) (simp_all add: f64_div_def)

lemma f64_mul_nan: "f64_mul a NaN = NaN"
  by (cases a) (simp_all add: f64_mul_def)

lemma scipy_binom_pmf_nan: "scipy_binom_pmf k n NaN = NaN"
  by (simp add: scipy_binom_pmf_def)

lemma p_value_example_nan: "p_value float64_ops 2 1 1 2 = Inr NaN"
  by (simp add: p_value_def null_likelihood_def alternate_likelihood_def Let_def float64_ops_def
      of_count_def f64_div_def [of "Finite 0"] f64_div_nan f64_mul_nan scipy_binom_pmf_nan
      math_log10_def)

lemma p_value_example_zero: "p_value float64_ops 2 2 1 1 = Inr (Finite 0)"
  by (simp add: p_value_def null_likelihood_def alternate_likelihood_def Let_def float64_ops_def
      of_count_def f64_div_def f64_mul_def scipy_binom_pmf_def math_log10_def
      float64_round_one float64_round_zero)

lemma p_value_example_equal: "p_value float64_ops 4 2 1 2 = Inr (Finite 0)"
  by (simp add: p_value_def null_likelihood_def alternate_likelihood_def Let_def float64_ops_def
      of_count_def f64_div_def f64_mul_def scipy_binom_pmf_def math_log10_def
      float64_round_one float64_round_zero float64_round_half float64_round_quarter)

lemma upt_two: "[0..<2] = [0, Suc 0]"
  by (simp add: numeral_2_eq_2)

text \<open>
  The likelihoods can underflow. For two regions that are each active in the same \<open>538\<close>
  of \<open>1076\<close> contrasts, both factors of \<open>null\<close> are \<open>2 ^ -538\<close>, their float64 product is
  \<open>0.0\<close> (the least positive float64 is \<open>2 ^ -1074\<close>), \<open>alternate\<close> is \<open>1\<close>, and
  \<^verbatim>\<open>math.log10(0.0)\<close> raises \<^verbatim>\<open>ValueError\<close>: the filter returns no matrix.
\<close>

lemma float64_round_tiny:
  "float64_round ((1 / 2) ^ nat 538) = Finite ((1 / 2) ^ nat 538)"
  by (rule float64_round_eval [where p = "- 538"])
    (simp_all add: powr_add powr_minus powr_realpow round_half_even_def power_one_over)

lemma float64_round_underflow:
  "float64_round ((1 / 2) ^ nat 538 * (1 / 2) ^ nat 538) = Finite 0"
  using float64_round_subnormal
    [where p = "- 1076" and x = "(1 / 2) ^ nat 538 * (1 / 2) ^ nat 538" and k = 0]
  by (simp add: powr_add powr_minus powr_realpow round_half_even_def power_one_over)

lemma scipy_binom_pmf_all:
  "0 \<le> n \<Longrightarrow> 0 \<le> q \<Longrightarrow> q \<le> 1 \<Longrightarrow> scipy_binom_pmf n n (Finite q) = float64_round (q ^ nat n)"
  by (simp add: scipy_binom_pmf_def)

lemma scipy_binom_pmf_none:
  "0 \<le> n \<Longrightarrow> 0 \<le> q \<Longrightarrow> q \<le> 1 \<Longrightarrow>
   scipy_binom_pmf 0 n (Finite q) = float64_round ((1 - q) ^ nat n)"
  by (simp add: scipy_binom_pmf_def)

lemma f64_mul_finite: "f64_mul (Finite a) (Finite b) = float64_round (a * b)"
  by (simp add: f64_mul_def)

lemma null_likelihood_underflow: "null_likelihood float64_ops 1076 538 538 538 = Finite 0"
proof -
  have p: "f64_div (of_count 538) (of_count 1076) = Finite (1 / 2)"
    by (simp add: f64_div_def of_count_def float64_round_half)
  have "scipy_binom_pmf 538 538 (Finite (1 / 2)) = float64_round ((1 / 2) ^ nat 538)"
    by (rule scipy_binom_pmf_all) simp_all
  then have a: "scipy_binom_pmf 538 538 (Finite (1 / 2)) = Finite ((1 / 2) ^ nat 538)"
    by (simp only: float64_round_tiny)
  have "(1 - 1 / 2 :: real) = 1 / 2"
    by simp
  moreover have "scipy_binom_pmf 0 538 (Finite (1 / 2)) = float64_round ((1 - 1 / 2) ^ nat 538)"
    by (rule scipy_binom_pmf_none) simp_all
  ultimately have b: "scipy_binom_pmf 0 538 (Finite (1 / 2)) = Finite ((1 / 2) ^ nat 538)"
    by (simp only: float64_round_tiny)
  have "null_likelihood float64_ops 1076 538 538 538 =
          f64_mul (scipy_binom_pmf 538 538 (f64_div (of_count 538) (of_count 1076)))
                  (scipy_binom_pmf 0 538 (f64_div (of_count 538) (of_count 1076)))"
    by (simp add: null_likelihood_def Let_def float64_ops_def)
  also have "\<dots> = Finite 0"
    by (simp only: p a b f64_mul_finite float64_round_underflow)
  finally show ?thesis .
qed

lemma alternate_likelihood_underflow:
  "alternate_likelihood float64_ops 1076 538 538 538 = Finite 1"
  by (simp add: alternate_likelihood_def Let_def float64_ops_def of_count_def f64_div_def
      f64_mul_def scipy_binom_pmf_def float64_round_one float64_round_zero)

lemma p_value_underflow: "p_value float64_ops 1076 538 538 538 = Inl ValueError"
  by (simp add: p_value_def Let_def null_likelihood_underflow alternate_likelihood_underflow)
    (simp add: float64_ops_def f64_div_def float64_round_zero math_log10_def)

lemma sct_underflow:
  "significant_connection_threshold float64_ops [[538, 538], [538, 538]] 1076 threshold =
     Inl ValueError"
  by (simp add: significant_connection_threshold_def Let_def upt_two sct_body_def mat_get_def
      p_value_underflow)

text \<open>
  Claim C8. Let \<open>C\<close> be an \<open>N \<times> N\<close> co-activation matrix and \<open>(i, j)\<close> an off-diagonal pair,
  \<open>null = Binom_pmf(C[i][j]; C[j][j], C[i][i]/N) * Binom_pmf(C[i][i]-C[i][j]; N-C[j][j], C[i][i]/N)\<close>
  and \<open>alternative = Binom_pmf(C[i][j]; C[j][j], C[i][j]/C[j][j]) *
  Binom_pmf(C[i][i]-C[i][j]; N-C[j][j], (C[i][i]-C[i][j])/(N-C[j][j]))\<close>, in the float64
  operations the source calls. Whenever the filter returns a matrix, \<open>math.log10\<close> has
  returned some \<open>l\<close> on \<open>null/alternative\<close>, and with \<open>stat = -2 * l\<close> the returned matrix has
  \<open>0\<close> at \<open>(i, j)\<close> if \<open>stat > alpha\<close> and the input's entry otherwise. The filter does return
  a matrix when \<open>math.log10\<close> raises at no off-diagonal pair. (In the statement \<open>N\<close> is the
  universe size \<open>total_contrasts\<close>.)
\<close>

theorem sct_decision:
  assumes "square C" and "i < length C" and "j < length C" and "i \<noteq> j"
    and "null = multiply ops
                  (binom_pmf ops (C ! i ! j) (C ! j ! j)
                     (true_divide ops (of_count (C ! i ! i)) (of_count N)))
                  (binom_pmf ops (C ! i ! i - C ! i ! j) (N - C ! j ! j)
                     (true_divide ops (of_count (C ! i ! i)) (of_count N)))"
    and "alternative =
           multiply ops
             (binom_pmf ops (C ! i ! j) (C ! j ! j)
                (true_divide ops (of_count (C ! i ! j)) (of_count (C ! j ! j))))
             (binom_pmf ops (C ! i ! i - C ! i ! j) (N - C ! j ! j)
                (true_divide ops (of_count (C ! i ! i - C ! i ! j)) (of_count (N - C ! j ! j))))"
  shows "(\<forall>M. significant_connection_threshold ops C N alpha = Inr M \<longrightarrow>
            (\<exists>l. log10 ops (true_divide ops null alternative) = Inr l \<and>
                 M ! i ! j = (if np_gt (multiply ops (Finite (- 2)) l) (Finite alpha)
                              then 0 else C ! i ! j))) \<and>
         ((\<forall>x<length C. \<forall>y<length C. x \<noteq> y \<longrightarrow>
              (\<exists>v. p_value ops N (C ! x ! x) (C ! x ! y) (C ! y ! y) = Inr v)) \<longrightarrow>
          (\<exists>M. significant_connection_threshold ops C N alpha = Inr M))"
proof (intro conjI allI impI)
  fix M assume ret: "significant_connection_threshold ops C N alpha = Inr M"
  have pv: "p_value ops N (C ! i ! i) (C ! i ! j) (C ! j ! j) =
          (case log10 ops (true_divide ops null alternative) of
             Inl e \<Rightarrow> Inl e
           | Inr l \<Rightarrow> Inr (multiply ops (Finite (- 2)) l))"
    using assms(5,6) by (simp add: p_value_def null_likelihood_def alternate_likelihood_def Let_def)
  from sct_defined [OF assms(1) ret assms(2,3)] assms(4)
  obtain v where v: "p_value ops N (C ! i ! i) (C ! i ! j) (C ! j ! j) = Inr v"
    by auto
  with pv obtain l where l: "log10 ops (true_divide ops null alternative) = Inr l"
    and vl: "v = multiply ops (Finite (- 2)) l"
    by (auto split: sum.splits)
  have "zeroed ops N alpha (C ! i ! i) (C ! i ! j) (C ! j ! j) \<longleftrightarrow>
          np_gt (multiply ops (Finite (- 2)) l) (Finite alpha)"
    by (simp add: zeroed_def v vl)
  with sct_entries [OF assms(1) ret] assms(2,3,4)
  have "M ! i ! j = (if np_gt (multiply ops (Finite (- 2)) l) (Finite alpha)
                     then 0 else C ! i ! j)"
    by auto
  with l show "\<exists>l. log10 ops (true_divide ops null alternative) = Inr l \<and>
                 M ! i ! j = (if np_gt (multiply ops (Finite (- 2)) l) (Finite alpha)
                              then 0 else C ! i ! j)"
    by blast
next
  assume "\<forall>x<length C. \<forall>y<length C. x \<noteq> y \<longrightarrow>
              (\<exists>v. p_value ops N (C ! x ! x) (C ! x ! y) (C ! y ! y) = Inr v)"
  then have "\<forall>x<length C. \<forall>y<length C. y \<noteq> x \<longrightarrow>
              (\<exists>v. p_value ops N (C ! x ! x) (C ! x ! y) (C ! y ! y) = Inr v)"
    by blast
  with assms(1) show "\<exists>M. significant_connection_threshold ops C N alpha = Inr M"
    by (rule sct_returns)
qed

theorem sct_decision_witness:
  "square [[2, 1], [1, 2 :: int]] \<and>
   (\<exists>M. significant_connection_threshold float64_ops [[2, 1], [1, 2]] 4 (- 1 / 2) = Inr M \<and>
        M ! 0 ! 1 = 0)"
proof -
  let ?C = "[[2, 1], [1, 2 :: int]]"
  let ?null = "multiply float64_ops
             (binom_pmf float64_ops (?C ! 0 ! 1) (?C ! 1 ! 1)
                (true_divide float64_ops (of_count (?C ! 0 ! 0)) (of_count 4)))
             (binom_pmf float64_ops (?C ! 0 ! 0 - ?C ! 0 ! 1) (4 - ?C ! 1 ! 1)
                (true_divide float64_ops (of_count (?C ! 0 ! 0)) (of_count 4)))"
  let ?alt = "multiply float64_ops
             (binom_pmf float64_ops (?C ! 0 ! 1) (?C ! 1 ! 1)
                (true_divide float64_ops (of_count (?C ! 0 ! 1)) (of_count (?C ! 1 ! 1))))
             (binom_pmf float64_ops (?C ! 0 ! 0 - ?C ! 0 ! 1) (4 - ?C ! 1 ! 1)
                (true_divide float64_ops (of_count (?C ! 0 ! 0 - ?C ! 0 ! 1))
                   (of_count (4 - ?C ! 1 ! 1))))"
  have sq: "square ?C" by (simp add: square_def)
  have l: "log10 float64_ops (true_divide float64_ops ?null ?alt) = Inr (Finite 0)"
    by (simp add: float64_ops_def of_count_def f64_div_def f64_mul_def scipy_binom_pmf_def
        math_log10_def float64_round_one float64_round_zero float64_round_half
        float64_round_quarter)
  have stat: "np_gt (multiply float64_ops (Finite (- 2)) (Finite 0)) (Finite (- 1 / 2))"
    by (simp add: float64_ops_def f64_mul_def float64_round_zero)
  have all: "\<forall>x<length ?C. \<forall>y<length ?C. x \<noteq> y \<longrightarrow>
              (\<exists>v. p_value float64_ops 4 (?C ! x ! x) (?C ! x ! y) (?C ! y ! y) = Inr v)"
    using p_value_example_equal by (simp add: less_Suc_eq)
  have "(\<forall>M. significant_connection_threshold float64_ops ?C 4 (- 1 / 2) = Inr M \<longrightarrow>
            (\<exists>l. log10 float64_ops (true_divide float64_ops ?null ?alt) = Inr l \<and>
                 M ! 0 ! 1 = (if np_gt (multiply float64_ops (Finite (- 2)) l) (Finite (- 1 / 2))
                              then 0 else ?C ! 0 ! 1))) \<and>
         ((\<forall>x<length ?C. \<forall>y<length ?C. x \<noteq> y \<longrightarrow>
              (\<exists>v. p_value float64_ops 4 (?C ! x ! x) (?C ! x ! y) (?C ! y ! y) = Inr v)) \<longrightarrow>
          (\<exists>M. significant_connection_threshold float64_ops ?C 4 (- 1 / 2) = Inr M))"
    by (rule sct_decision [OF sq _ _ _ refl refl]) simp_all
  with all obtain M where
    M: "significant_connection_threshold float64_ops ?C 4 (- 1 / 2) = Inr M" and
    "\<exists>l. log10 float64_ops (true_divide float64_ops ?null ?alt) = Inr l \<and>
         M ! 0 ! 1 = (if np_gt (multiply float64_ops (Finite (- 2)) l) (Finite (- 1 / 2))
                      then 0 else ?C ! 0 ! 1)"
    by blast
  with l stat have "M ! 0 ! 1 = 0"
    by auto
  with sq M show ?thesis by blast
qed

lemma example_square: "square [[1, 1], [1, 2 :: int]]"
  by (simp add: square_def)

lemma example_symmetric: "symmetric [[1, 1], [1, 2 :: int]]"
  by (simp add: symmetric_def less_Suc_eq numeral_2_eq_2)

lemma sct_body_example_kept:
  "sct_body float64_ops 2 (- 1) 0 (Suc 0) [[1, 1], [1, 2]] = Inr [[1, 1], [1, 2]]"
  by (simp add: sct_body_def mat_get_def mat_set_def p_value_example_nan)

lemma sct_body_example_zeroed:
  "sct_body float64_ops 2 (- 1) (Suc 0) 0 [[1, 1], [1, 2]] = Inr [[1, 1], [0, 2]]"
  by (simp add: sct_body_def mat_get_def mat_set_def p_value_example_zero)

lemma sct_body_example_diagonal:
  "sct_body ops 2 (- 1) 0 0 A = Inr A" "sct_body ops 2 (- 1) (Suc 0) (Suc 0) A = Inr A"
  by (simp_all add: sct_body_def)

lemma sct_example_result:
  "significant_connection_threshold float64_ops [[1, 1], [1, 2]] 2 (- 1) = Inr [[1, 1], [0, 2]]"
  by (simp add: significant_connection_threshold_def Let_def upt_two sct_body_example_kept
      sct_body_example_zeroed sct_body_example_diagonal)

lemma symmetricD:
  "symmetric M \<Longrightarrow> i < length M \<Longrightarrow> j < length M \<Longrightarrow> M ! i ! j = M ! j ! i"
  by (simp add: symmetric_def)

lemma example_result_asymmetric: "\<not> symmetric [[1, 1], [0, 2 :: int]]"
proof
  assume "symmetric [[1, 1], [0, 2 :: int]]"
  from symmetricD [OF this, of 0 1] show False by simp
qed

text \<open>
  Claim C1, as stated: the filtered matrix of a symmetric input is symmetric. Take the
  regions \<open>{s1}\<close> and \<open>{s1, s2}\<close> in a universe of two contrasts, \<open>C = [[1, 1], [1, 2]]\<close>,
  and the threshold \<open>-1\<close>. At \<open>(0, 1)\<close> the quotient \<open>p_zero\<close> is \<open>0/0\<close>, the statistic is
  NaN and the comparison is false, so the entry stays; at \<open>(1, 0)\<close> both likelihoods are
  \<open>1\<close>, the statistic is \<open>0 > -1\<close> and the entry is zeroed.
\<close>

theorem sct_asymmetric_counterexample:
  "square [[1, 1], [1, 2 :: int]] \<and> symmetric [[1, 1], [1, 2 :: int]] \<and>
   significant_connection_threshold float64_ops [[1, 1], [1, 2]] 2 (- 1) =
     Inr [[1, 1], [0, 2]] \<and>
   \<not> symmetric [[1, 1], [0, 2 :: int]]"
  using example_square example_symmetric sct_example_result example_result_asymmetric
  by (intro conjI)

text \<open>
  Claim C1, amended. For every square co-activation matrix \<open>C\<close>, the matrix that
  \<open>significant_connection_threshold\<close> returns has the shape and the diagonal of \<open>C\<close>, and
  each of its other entries is the entry of \<open>C\<close> at that place or \<open>0\<close>. (It need not be
  symmetric: the two directions of a pair are decided by two float64 computations.)
\<close>

theorem sct_diagonal_unchanged:
  assumes "square C" and "significant_connection_threshold ops C N threshold = Inr M"
  shows "length M = length C \<and> square M \<and>
         (\<forall>i<length C. M ! i ! i = C ! i ! i) \<and>
         (\<forall>i<length C. \<forall>j<length C. M ! i ! j = C ! i ! j \<or> M ! i ! j = 0)"
  using sct_entries [OF assms] by simp

theorem sct_diagonal_unchanged_witness:
  "square [[1, 1], [1, 2 :: int]] \<and>
   significant_connection_threshold float64_ops [[1, 1], [1, 2]] 2 (- 1) =
     Inr [[1, 1], [0, 2]] \<and>
   length [[1, 1], [0, 2 :: int]] = 2 \<and> square [[1, 1], [0, 2 :: int]] \<and>
   [[1, 1], [0, 2 :: int]] ! 0 ! 0 = 1 \<and> [[1, 1], [0, 2 :: int]] ! 1 ! 1 = 2"
  using sct_diagonal_unchanged [OF example_square sct_example_result] example_square
    sct_example_result
  by simp

end
